theory Spec2Isabelle
  imports Main "HOL-Library.Word" "HOL-Library.Monad_Syntax"
begin

section \<open>Data model: nodes, tree handles and the node store\<close>

text \<open>
  The rope of \<^verbatim>\<open>rope_data_structure.c\<close> is a splay tree of heap-allocated nodes that
  point at one another through \<^verbatim>\<open>parent\<close>, \<^verbatim>\<open>left\<close> and \<^verbatim>\<open>right\<close>. The nodes live in
  an explicit store that maps an address to the node stored there; \<^verbatim>\<open>NULL\<close> is \<open>None\<close>.
  The C type \<^verbatim>\<open>unsigned\<close> is a 32-bit word. Every function returns an option: \<open>None\<close>
  stands for undefined behaviour of the C program (a null or dangling pointer is
  dereferenced) and, for loops, for a run that never leaves the loop.

  A \<^verbatim>\<open>SplayTree\<close> handle is passed and returned by value. No function of the file is
  ever called with two pointers to the same handle, so handles need no store of
  their own. The address that \<^verbatim>\<open>malloc\<close> returns inside \<^verbatim>\<open>createNode\<close> is a parameter
  of the model; allocation failure is not modelled.
\<close>

type_synonym addr = nat
type_synonym ptr = "addr option"
type_synonym u32 = "32 word"

record Node =
  nvalue :: char
  parent :: ptr
  left :: ptr
  right :: ptr
  nsize :: u32

record SplayTree =
  root :: ptr
  tsize :: u32

type_synonym heap = "addr \<Rightarrow> Node option"

definition createNode :: "heap \<Rightarrow> addr \<Rightarrow> char \<Rightarrow> heap" where
  "createNode h a v =
     h(a \<mapsto> \<lparr>nvalue = v, parent = None, left = None, right = None, nsize = 1\<rparr>)"

definition createTree :: SplayTree where
  "createTree = \<lparr>root = None, tsize = 0\<rparr>"

text \<open>A write through a node pointer: \<^verbatim>\<open>a->field = ...\<close>.\<close>

definition upd :: "heap \<Rightarrow> addr \<Rightarrow> (Node \<Rightarrow> Node) \<Rightarrow> heap option" where
  "upd h a f = (case h a of None \<Rightarrow> None | Some n \<Rightarrow> Some (h(a \<mapsto> f n)))"

text \<open>The expression \<^verbatim>\<open>(p ? p->size : 0)\<close>.\<close>

definition size_of :: "heap \<Rightarrow> ptr \<Rightarrow> u32 option" where
  "size_of h p = (case p of None \<Rightarrow> Some 0 | Some c \<Rightarrow> map_option nsize (h c))"

text \<open>
  The statement
  \<^verbatim>\<open>a->size = (a->left ? a->left->size : 0) + (a->right ? a->right->size : 0) + 1\<close>.
\<close>

definition update_size :: "heap \<Rightarrow> addr \<Rightarrow> heap option" where
  "update_size h a = do {
     n \<leftarrow> h a;
     ls \<leftarrow> size_of h (left n);
     rs \<leftarrow> size_of h (right n);
     upd h a (\<lambda>m. m\<lparr>nsize := ls + rs + 1\<rparr>)
   }"

section \<open>Rotations\<close>

text \<open>
  The part shared by \<^verbatim>\<open>_rotateRight\<close> and \<^verbatim>\<open>_rotateLeft\<close>: the child \<open>c\<close> that moves up
  takes the place of \<open>node\<close> below \<open>node\<close>'s parent \<open>p\<close>, or becomes the root.
\<close>

definition replace_child ::
  "heap \<Rightarrow> SplayTree \<Rightarrow> ptr \<Rightarrow> addr \<Rightarrow> addr \<Rightarrow> (heap \<times> SplayTree) option" where
  "replace_child h tree p node c =
     (case p of
        Some q \<Rightarrow> do {
          qn \<leftarrow> h q;
          h' \<leftarrow> (if left qn = Some node then upd h q (\<lambda>m. m\<lparr>left := Some c\<rparr>)
                else upd h q (\<lambda>m. m\<lparr>right := Some c\<rparr>));
          Some (h', tree)
        }
      | None \<Rightarrow> Some (h, tree\<lparr>root := Some c\<rparr>))"

definition rotateRight :: "heap \<Rightarrow> SplayTree \<Rightarrow> addr \<Rightarrow> (heap \<times> SplayTree) option" where
  "rotateRight h tree node = do {
     n \<leftarrow> h node;
     (case left n of
        None \<Rightarrow> Some (h, tree)
      | Some y \<Rightarrow> do {
          yn \<leftarrow> h y;
          h1 \<leftarrow> upd h y (\<lambda>m. m\<lparr>parent := parent n\<rparr>);
          (h2, tree') \<leftarrow> replace_child h1 tree (parent n) node y;
          h3 \<leftarrow> upd h2 node (\<lambda>m. m\<lparr>parent := Some y\<rparr>);
          h4 \<leftarrow> upd h3 y (\<lambda>m. m\<lparr>right := Some node\<rparr>);
          h5 \<leftarrow> (case right yn of
                  Some b \<Rightarrow> upd h4 b (\<lambda>m. m\<lparr>parent := Some node\<rparr>)
                | None \<Rightarrow> Some h4);
          h6 \<leftarrow> upd h5 node (\<lambda>m. m\<lparr>left := right yn\<rparr>);
          h7 \<leftarrow> update_size h6 node;
          h8 \<leftarrow> update_size h7 y;
          Some (h8, tree')
        })
   }"

definition rotateLeft :: "heap \<Rightarrow> SplayTree \<Rightarrow> addr \<Rightarrow> (heap \<times> SplayTree) option" where
  "rotateLeft h tree node = do {
     n \<leftarrow> h node;
     (case right n of
        None \<Rightarrow> Some (h, tree)
      | Some x \<Rightarrow> do {
          xn \<leftarrow> h x;
          h1 \<leftarrow> upd h x (\<lambda>m. m\<lparr>parent := parent n\<rparr>);
          (h2, tree') \<leftarrow> replace_child h1 tree (parent n) node x;
          h3 \<leftarrow> upd h2 node (\<lambda>m. m\<lparr>parent := Some x\<rparr>);
          h4 \<leftarrow> upd h3 x (\<lambda>m. m\<lparr>left := Some node\<rparr>);
          h5 \<leftarrow> (case left xn of
                  Some b \<Rightarrow> upd h4 b (\<lambda>m. m\<lparr>parent := Some node\<rparr>)
                | None \<Rightarrow> Some h4);
          h6 \<leftarrow> upd h5 node (\<lambda>m. m\<lparr>right := left xn\<rparr>);
          h7 \<leftarrow> update_size h6 node;
          h8 \<leftarrow> update_size h7 x;
          Some (h8, tree')
        })
   }"

section \<open>Splay\<close>

text \<open>
  One iteration of the loop of \<^verbatim>\<open>_splay\<close>, for a node whose parent \<open>p\<close> is not null:
  zig, zig-zig or zig-zag. The tests \<^verbatim>\<open>node == parent->left\<close> and
  \<^verbatim>\<open>parent == grandParent->left\<close> are made before any rotation, as in the source. When
  the node is neither child of its parent, the body does nothing.
\<close>

definition splay_step :: "heap \<Rightarrow> SplayTree \<Rightarrow> addr \<Rightarrow> addr \<Rightarrow> (heap \<times> SplayTree) option" where
  "splay_step h tree node p = do {
     n \<leftarrow> h node;
     pn \<leftarrow> h p;
     (case parent pn of
        None \<Rightarrow>
          if left pn = Some node then rotateRight h tree p else rotateLeft h tree p
      | Some g \<Rightarrow>
          if left pn = Some node then do {
            gn \<leftarrow> h g;
            if left gn = Some p then do {
              (h1, t1) \<leftarrow> rotateRight h tree g;
              rotateRight h1 t1 p
            } else do {
              (h1, t1) \<leftarrow> rotateRight h tree p;
              rotateLeft h1 t1 g
            }
          }
          else if right pn = Some node then do {
            gn \<leftarrow> h g;
            if right gn = Some p then do {
              (h1, t1) \<leftarrow> rotateLeft h tree g;
              rotateLeft h1 t1 p
            } else do {
              (h1, t1) \<leftarrow> rotateLeft h tree p;
              rotateRight h1 t1 g
            }
          }
          else Some (h, tree))
   }"

text \<open>The loop \<^verbatim>\<open>while (parent) { ...; parent = node->parent; }\<close>.\<close>

partial_function (option) splay_loop ::
  "heap \<Rightarrow> SplayTree \<Rightarrow> addr \<Rightarrow> (heap \<times> SplayTree) option" where
  "splay_loop h tree node =
     (case h node of
        None \<Rightarrow> None
      | Some n \<Rightarrow>
          (case parent n of
             None \<Rightarrow> Some (h, tree)
           | Some p \<Rightarrow>
               (case splay_step h tree node p of
                  None \<Rightarrow> None
                | Some s \<Rightarrow> splay_loop (fst s) (snd s) node)))"

definition splay :: "heap \<Rightarrow> SplayTree \<Rightarrow> ptr \<Rightarrow> (heap \<times> SplayTree) option" where
  "splay h tree node =
     (case node of None \<Rightarrow> Some (h, tree) | Some a \<Rightarrow> splay_loop h tree a)"

section \<open>Order statistics\<close>

text \<open>
  The descent of \<^verbatim>\<open>orderStatisticZeroBasedRanking\<close>. The bounds check of the source is
  inside \<^verbatim>\<open>#ifdef DEBUG\<close> and \<^verbatim>\<open>DEBUG\<close> is not defined, so it is not part of the program.
\<close>

partial_function (option) os_loop :: "heap \<Rightarrow> ptr \<Rightarrow> u32 \<Rightarrow> ptr option" where
  "os_loop h node k =
     (case node of
        None \<Rightarrow> Some None
      | Some a \<Rightarrow>
          (case h a of
             None \<Rightarrow> None
           | Some n \<Rightarrow>
               (case size_of h (left n) of
                  None \<Rightarrow> None
                | Some s \<Rightarrow>
                    if k = s then Some (Some a)
                    else if k < s then
                      (case left n of
                         Some l \<Rightarrow> os_loop h (Some l) k
                       | None \<Rightarrow> Some (Some a))
                    else
                      (case right n of
                         Some r \<Rightarrow> os_loop h (Some r) (k - s - 1)
                       | None \<Rightarrow> Some (Some a)))))"

definition orderStatisticZeroBasedRanking ::
  "heap \<Rightarrow> SplayTree \<Rightarrow> u32 \<Rightarrow> (heap \<times> SplayTree \<times> ptr) option" where
  "orderStatisticZeroBasedRanking h tree k = do {
     node \<leftarrow> os_loop h (root tree) k;
     (h', tree') \<leftarrow> splay h tree node;
     Some (h', tree', node)
   }"

section \<open>Insertion\<close>

text \<open>
  \<^verbatim>\<open>insert\<close>; the last argument is the address of the node that \<^verbatim>\<open>createNode\<close>
  allocates. As for the locator, the bounds check is compiled out.
\<close>

definition insert_at ::
  "heap \<Rightarrow> SplayTree \<Rightarrow> u32 \<Rightarrow> char \<Rightarrow> addr \<Rightarrow> (heap \<times> SplayTree) option" where
  "insert_at h tree rank v node =
     (let h0 = createNode h node v in
      if rank = tsize tree \<and> tsize tree > 0 then do {
        (h1, tree1, last) \<leftarrow> orderStatisticZeroBasedRanking h0 tree (rank - 1);
        (case last of
           None \<Rightarrow> None
         | Some l \<Rightarrow> do {
             h2 \<leftarrow> upd h1 node (\<lambda>m. m\<lparr>left := Some l\<rparr>);
             ln \<leftarrow> h2 l;
             h3 \<leftarrow> upd h2 node (\<lambda>m. m\<lparr>nsize := nsize ln + 1\<rparr>);
             h4 \<leftarrow> upd h3 l (\<lambda>m. m\<lparr>parent := Some node\<rparr>);
             Some (h4, tree1\<lparr>tsize := tsize tree1 + 1, root := Some node\<rparr>)
           })
      }
      else if tsize tree = 0 then
        Some (h0, tree\<lparr>tsize := tsize tree + 1, root := Some node\<rparr>)
      else do {
        (h1, tree1, rgt) \<leftarrow> orderStatisticZeroBasedRanking h0 tree rank;
        (case rgt of
           None \<Rightarrow> None
         | Some r \<Rightarrow> do {
             h2 \<leftarrow> upd h1 node (\<lambda>m. m\<lparr>right := Some r\<rparr>);
             rn \<leftarrow> h2 r;
             h3 \<leftarrow> upd h2 node (\<lambda>m. m\<lparr>left := left rn\<rparr>);
             h4 \<leftarrow> upd h3 r (\<lambda>m. m\<lparr>parent := Some node\<rparr>);
             h5 \<leftarrow> upd h4 r (\<lambda>m. m\<lparr>left := None\<rparr>);
             rn' \<leftarrow> h5 r;
             rs \<leftarrow> size_of h5 (right rn');
             h6 \<leftarrow> upd h5 r (\<lambda>m. m\<lparr>nsize := rs + 1\<rparr>);
             h7 \<leftarrow> update_size h6 node;
             Some (h7, tree1\<lparr>tsize := tsize tree1 + 1, root := Some node\<rparr>)
           })
      })"

text \<open>\<^verbatim>\<open>insertSpecific\<close>, the bulk-load insert: the new node becomes the root.\<close>

definition insertSpecific ::
  "heap \<Rightarrow> SplayTree \<Rightarrow> char \<Rightarrow> addr \<Rightarrow> (heap \<times> SplayTree) option" where
  "insertSpecific h tree v node =
     (let h0 = createNode h node v in do {
        h1 \<leftarrow> (case root tree of
                Some r \<Rightarrow> upd h0 r (\<lambda>m. m\<lparr>parent := Some node\<rparr>)
              | None \<Rightarrow> Some h0);
        h2 \<leftarrow> upd h1 node (\<lambda>m. m\<lparr>left := root tree\<rparr>);
        n \<leftarrow> h2 node;
        ls \<leftarrow> size_of h2 (left n);
        h3 \<leftarrow> upd h2 node (\<lambda>m. m\<lparr>nsize := ls + 1\<rparr>);
        Some (h3, tree\<lparr>root := Some node, tsize := tsize tree + 1\<rparr>)
      })"

text \<open>
  The loop of \<^verbatim>\<open>main\<close> that loads the text: one \<^verbatim>\<open>insertSpecific\<close> for each character,
  each with the address of its new node.
\<close>

fun build :: "heap \<Rightarrow> SplayTree \<Rightarrow> (char \<times> addr) list \<Rightarrow> (heap \<times> SplayTree) option" where
  "build h tree [] = Some (h, tree)"
| "build h tree ((v, a) # rest) =
     (case insertSpecific h tree v a of
        None \<Rightarrow> None
      | Some s \<Rightarrow> build (fst s) (snd s) rest)"

section \<open>Merge and split\<close>

partial_function (option) max_loop :: "heap \<Rightarrow> addr \<Rightarrow> addr option" where
  "max_loop h node =
     (case h node of
        None \<Rightarrow> None
      | Some n \<Rightarrow> (case right n of None \<Rightarrow> Some node | Some r \<Rightarrow> max_loop h r))"

definition subtreeMaximum ::
  "heap \<Rightarrow> SplayTree \<Rightarrow> ptr \<Rightarrow> (heap \<times> SplayTree \<times> ptr) option" where
  "subtreeMaximum h tree node =
     (case node of
        None \<Rightarrow> Some (h, tree, None)
      | Some a \<Rightarrow> do {
          m \<leftarrow> max_loop h a;
          (h', tree') \<leftarrow> splay h tree (Some m);
          Some (h', tree', Some m)
        })"

text \<open>
  \<^verbatim>\<open>merge\<close>: a tree pointer may be null, so both arguments and the result are optional
  handles.
\<close>

definition merge ::
  "heap \<Rightarrow> SplayTree option \<Rightarrow> SplayTree option \<Rightarrow> (heap \<times> SplayTree option) option" where
  "merge h tree1 tree2 =
     (case tree1 of
        None \<Rightarrow> Some (h, tree2)
      | Some t1 \<Rightarrow>
          if root t1 = None then Some (h, tree2)
          else
            (case tree2 of
               None \<Rightarrow> Some (h, tree1)
             | Some t2 \<Rightarrow>
                 (case root t2 of
                    None \<Rightarrow> Some (h, tree1)
                  | Some root2 \<Rightarrow> do {
                      (h1, t1', m) \<leftarrow> subtreeMaximum h t1 (root t1);
                      (case m of
                         None \<Rightarrow> None
                       | Some root1 \<Rightarrow> do {
                           h2 \<leftarrow> upd h1 root2 (\<lambda>m. m\<lparr>parent := Some root1\<rparr>);
                           h3 \<leftarrow> upd h2 root1 (\<lambda>m. m\<lparr>right := Some root2\<rparr>);
                           h4 \<leftarrow> update_size h3 root1;
                           n \<leftarrow> h4 root1;
                           Some (h4, Some (t1'\<lparr>tsize := nsize n\<rparr>))
                         })
                    })))"

text \<open>
  \<^verbatim>\<open>split\<close> returns the two new handles that the source writes through \<^verbatim>\<open>tree1\<close> and
  \<^verbatim>\<open>tree2\<close>.
\<close>

definition split ::
  "heap \<Rightarrow> SplayTree \<Rightarrow> u32 \<Rightarrow> (heap \<times> SplayTree \<times> SplayTree) option" where
  "split h tree rank = do {
     (h1, tree', r) \<leftarrow> orderStatisticZeroBasedRanking h tree rank;
     (case r of
        None \<Rightarrow> None
      | Some root1 \<Rightarrow> do {
          n1 \<leftarrow> h1 root1;
          h2 \<leftarrow> upd h1 root1 (\<lambda>m. m\<lparr>right := None\<rparr>);
          h3 \<leftarrow> update_size h2 root1;
          n1' \<leftarrow> h3 root1;
          (case right n1 of
             None \<Rightarrow> Some (h3, createTree\<lparr>root := Some root1, tsize := nsize n1'\<rparr>, createTree)
           | Some root2 \<Rightarrow> do {
               h4 \<leftarrow> upd h3 root2 (\<lambda>m. m\<lparr>parent := None\<rparr>);
               n2 \<leftarrow> h4 root2;
               Some (h4, createTree\<lparr>root := Some root1, tsize := nsize n1'\<rparr>,
                     createTree\<lparr>root := Some root2, tsize := nsize n2\<rparr>)
             })
        })
   }"

section \<open>Cut and paste\<close>

definition process ::
  "heap \<Rightarrow> SplayTree \<Rightarrow> u32 \<Rightarrow> u32 \<Rightarrow> u32 \<Rightarrow> (heap \<times> SplayTree option) option" where
  "process h tree i j k = do {
     (h1, mid, rgt) \<leftarrow> split h tree j;
     (h2, lft, mid') \<leftarrow>
        (if i > 0 then do {
           (h', l, m) \<leftarrow> split h1 mid (i - 1);
           Some (h', Some l, m)
         } else Some (h1, None, mid));
     (h3, lft') \<leftarrow> merge h2 lft (Some rgt);
     (h4, lft'', rgt') \<leftarrow>
        (if k > 0 then
           (case lft' of
              None \<Rightarrow> None
            | Some l \<Rightarrow> do {
                (h', l', r') \<leftarrow> split h3 l (k - 1);
                Some (h', Some l', Some r')
              })
         else Some (h3, None, lft'));
     (h5, lm) \<leftarrow> merge h4 lft'' (Some mid');
     merge h5 lm rgt'
   }"

section \<open>Traversal\<close>

text \<open>
  The two nested loops of \<^verbatim>\<open>inOrder\<close> as one loop over the current pointer, the
  explicit stack and the characters written so far. The result is the list of
  characters written to the buffer; the capacities of the stack and of the buffer
  are not modelled.
\<close>

partial_function (option) inOrder_loop ::
  "heap \<Rightarrow> ptr \<Rightarrow> addr list \<Rightarrow> char list \<Rightarrow> char list option" where
  "inOrder_loop h current stack result =
     (case current of
        Some c \<Rightarrow>
          (case h c of
             None \<Rightarrow> None
           | Some n \<Rightarrow> inOrder_loop h (left n) (c # stack) result)
      | None \<Rightarrow>
          (case stack of
             [] \<Rightarrow> Some result
           | c # stack' \<Rightarrow>
               (case h c of
                  None \<Rightarrow> None
                | Some n \<Rightarrow> inOrder_loop h (right n) stack' (result @ [nvalue n]))))"

definition inOrder :: "heap \<Rightarrow> SplayTree \<Rightarrow> char list option" where
  "inOrder h tree =
     (case root tree of None \<Rightarrow> Some [] | Some r \<Rightarrow> inOrder_loop h (Some r) [] [])"

section \<open>Abstraction: the tree that a store holds\<close>

text \<open>
  A tree of addresses describes the shape that the links of the store form. The
  predicate \<open>heap_tree h par t\<close> says that the store holds \<open>t\<close> below a parent
  pointer \<open>par\<close>: each node of \<open>t\<close> is allocated, its \<^verbatim>\<open>left\<close> and \<^verbatim>\<open>right\<close> point to the
  roots of its subtrees, its \<^verbatim>\<open>parent\<close> points to the node above it, and its \<^verbatim>\<open>size\<close>
  is the number of nodes of its subtree. Together with distinct addresses this is
  the structural invariant of the rope.
\<close>

datatype atree = Tip | Br atree addr atree

fun inorder :: "atree \<Rightarrow> addr list" where
  "inorder Tip = []"
| "inorder (Br l a r) = inorder l @ a # inorder r"

fun count :: "atree \<Rightarrow> nat" where
  "count Tip = 0"
| "count (Br l a r) = count l + count r + 1"

fun rootp :: "atree \<Rightarrow> ptr" where
  "rootp Tip = None"
| "rootp (Br l a r) = Some a"

fun heap_tree :: "heap \<Rightarrow> ptr \<Rightarrow> atree \<Rightarrow> bool" where
  "heap_tree h par Tip = True"
| "heap_tree h par (Br l a r) =
     (case h a of
        None \<Rightarrow> False
      | Some n \<Rightarrow>
          parent n = par \<and> left n = rootp l \<and> right n = rootp r \<and>
          unat (nsize n) = count (Br l a r) \<and>
          heap_tree h (Some a) l \<and> heap_tree h (Some a) r)"

definition valid :: "heap \<Rightarrow> SplayTree \<Rightarrow> atree \<Rightarrow> bool" where
  "valid h tree t \<longleftrightarrow>
     root tree = rootp t \<and> unat (tsize tree) = count t \<and>
     heap_tree h None t \<and> distinct (inorder t)"

text \<open>The characters of the nodes of a tree, in position order.\<close>

definition text_of :: "heap \<Rightarrow> atree \<Rightarrow> char list" where
  "text_of h t = map (\<lambda>a. case h a of None \<Rightarrow> CHR 0x00 | Some n \<Rightarrow> nvalue n) (inorder t)"

text \<open>
  What every operation on a tree with node set \<open>S\<close> leaves alone: no node changes
  its character, no node is allocated or freed, and nodes outside \<open>S\<close> are not
  written at all.
\<close>

definition relinks :: "heap \<Rightarrow> heap \<Rightarrow> addr set \<Rightarrow> bool" where
  "relinks h h' S \<longleftrightarrow>
     (\<forall>a. map_option nvalue (h' a) = map_option nvalue (h a)) \<and> (\<forall>a. a \<notin> S \<longrightarrow> h' a = h a)"

subsection \<open>A subtree in its context\<close>

text \<open>
  Splaying works upwards from a node, so the tree is also viewed from that node: the
  subtree below it and the list of frames on the way up to the root, nearest
  first. \<open>LeftOf a s\<close> says that the subtree in focus is the left child of \<open>a\<close>, whose
  right subtree is \<open>s\<close>.
\<close>

datatype frame = LeftOf addr atree | RightOf addr atree

fun plug_frame :: "frame \<Rightarrow> atree \<Rightarrow> atree" where
  "plug_frame (LeftOf a s) t = Br t a s"
| "plug_frame (RightOf a s) t = Br s a t"

fun plug :: "frame list \<Rightarrow> atree \<Rightarrow> atree" where
  "plug [] t = t"
| "plug (f # fs) t = plug fs (plug_frame f t)"

fun frame_addr :: "frame \<Rightarrow> addr" where
  "frame_addr (LeftOf a s) = a"
| "frame_addr (RightOf a s) = a"

fun frame_nodes :: "frame \<Rightarrow> addr list" where
  "frame_nodes (LeftOf a s) = a # inorder s"
| "frame_nodes (RightOf a s) = a # inorder s"

fun ctx_parent :: "frame list \<Rightarrow> ptr" where
  "ctx_parent [] = None"
| "ctx_parent (f # fs) = Some (frame_addr f)"

fun ctx_nodes :: "frame list \<Rightarrow> addr list" where
  "ctx_nodes [] = []"
| "ctx_nodes (f # fs) = frame_nodes f @ ctx_nodes fs"

text \<open>
  \<open>heap_ctx h p n fs\<close>: the store holds the frames \<open>fs\<close> around a hole whose root
  pointer is \<open>p\<close> and which has \<open>n\<close> nodes.
\<close>

fun heap_ctx :: "heap \<Rightarrow> ptr \<Rightarrow> nat \<Rightarrow> frame list \<Rightarrow> bool" where
  "heap_ctx h p n [] = True"
| "heap_ctx h p n (LeftOf a s # fs) =
     (case h a of
        None \<Rightarrow> False
      | Some m \<Rightarrow>
          parent m = ctx_parent fs \<and> left m = p \<and> right m = rootp s \<and>
          unat (nsize m) = n + count s + 1 \<and>
          heap_tree h (Some a) s \<and> heap_ctx h (Some a) (n + count s + 1) fs)"
| "heap_ctx h p n (RightOf a s # fs) =
     (case h a of
        None \<Rightarrow> False
      | Some m \<Rightarrow>
          parent m = ctx_parent fs \<and> left m = rootp s \<and> right m = p \<and>
          unat (nsize m) = n + count s + 1 \<and>
          heap_tree h (Some a) s \<and> heap_ctx h (Some a) (n + count s + 1) fs)"

text \<open>The write that a rotation makes in the parent of the rotated node.\<close>

definition relink :: "Node \<Rightarrow> addr \<Rightarrow> addr \<Rightarrow> Node" where
  "relink m old new = (if left m = Some old then m\<lparr>left := Some new\<rparr> else m\<lparr>right := Some new\<rparr>)"

subsection \<open>A small rope\<close>

text \<open>
  The rope \<^verbatim>\<open>abc\<close> with \<^verbatim>\<open>b\<close> at the root, used to instantiate the theorems below.
\<close>

definition abc_heap :: heap where
  "abc_heap =
     [0 \<mapsto> \<lparr>nvalue = CHR ''a'', parent = Some 1, left = None, right = None, nsize = 1\<rparr>,
      1 \<mapsto> \<lparr>nvalue = CHR ''b'', parent = None, left = Some 0, right = Some 2, nsize = 3\<rparr>,
      2 \<mapsto> \<lparr>nvalue = CHR ''c'', parent = Some 1, left = None, right = None, nsize = 1\<rparr>]"

definition abc_tree :: SplayTree where
  "abc_tree = \<lparr>root = Some 1, tsize = 3\<rparr>"

definition abc_shape :: atree where
  "abc_shape = Br (Br Tip 0 Tip) 1 (Br Tip 2 Tip)"

text \<open>A tree pointer that may be null: the null pointer holds no nodes.\<close>

definition valid_opt :: "heap \<Rightarrow> SplayTree option \<Rightarrow> atree \<Rightarrow> bool" where
  "valid_opt h tree t = (case tree of None \<Rightarrow> t = Tip | Some T \<Rightarrow> valid h T t)"

subsection \<open>The specification of cut and paste\<close>

text \<open>
  This definition follows the words of the specification, not the code: the
  elements at positions \<open>i\<close> to \<open>j\<close> are removed and put back after the first \<open>k\<close>
  elements of what remains.
\<close>

definition cut_paste :: "'a list \<Rightarrow> nat \<Rightarrow> nat \<Rightarrow> nat \<Rightarrow> 'a list" where
  "cut_paste s i j k =
     (let cut = take (j - i + 1) (drop i s);
          remaining = take i s @ drop (j + 1) s
      in take k remaining @ cut @ drop k remaining)"

subsection \<open>The invariants of the specification, read off the store\<close>

text \<open>
  \<open>links h p t\<close>: following \<^verbatim>\<open>left\<close> and \<^verbatim>\<open>right\<close> from the pointer \<open>p\<close> reaches exactly
  the nodes of \<open>t\<close>, in the shape of \<open>t\<close>. Nothing is said about sizes or parents.
\<close>

fun links :: "heap \<Rightarrow> ptr \<Rightarrow> atree \<Rightarrow> bool" where
  "links h p Tip = (p = None)"
| "links h p (Br l a r) =
     (p = Some a \<and>
      (case h a of None \<Rightarrow> False | Some n \<Rightarrow> links h (left n) l \<and> links h (right n) r))"

text \<open>
  The size invariant as the specification writes it, in the arithmetic of the
  code: \<^verbatim>\<open>size == 1 + size(left) + size(right)\<close>, a missing child counting 0.
\<close>

definition size_eq :: "heap \<Rightarrow> addr \<Rightarrow> bool" where
  "size_eq h a =
     (case h a of
        None \<Rightarrow> False
      | Some n \<Rightarrow>
          (case (size_of h (left n), size_of h (right n)) of
             (Some sl, Some sr) \<Rightarrow> nsize n = 1 + sl + sr
           | _ \<Rightarrow> False))"

definition sizes_ok :: "heap \<Rightarrow> SplayTree \<Rightarrow> atree \<Rightarrow> bool" where
  "sizes_ok h tree t \<longleftrightarrow>
     links h (root tree) t \<and> list_all (size_eq h) (inorder t) \<and>
     size_of h (root tree) = Some (tsize tree)"

text \<open>
  The parent invariant as the specification writes it: the parent pointer of a
  node that is not the root names a node exactly one of whose child links points
  back.
\<close>

definition parent_ok :: "heap \<Rightarrow> addr \<Rightarrow> bool" where
  "parent_ok h a =
     (case h a of
        None \<Rightarrow> False
      | Some n \<Rightarrow>
          (case parent n of
             None \<Rightarrow> False
           | Some p \<Rightarrow>
               (case h p of
                  None \<Rightarrow> False
                | Some pn \<Rightarrow> (left pn = Some a) \<noteq> (right pn = Some a))))"

definition parents_ok :: "heap \<Rightarrow> SplayTree \<Rightarrow> atree \<Rightarrow> bool" where
  "parents_ok h tree t \<longleftrightarrow>
     links h (root tree) t \<and>
     list_all (\<lambda>a. root tree = Some a \<or> parent_ok h a) (inorder t)"

text \<open>The number of edges between a node and the root.\<close>

fun depth :: "atree \<Rightarrow> addr \<Rightarrow> nat" where
  "depth Tip x = 0"
| "depth (Br l a r) x =
     (if x = a then 0
      else if x \<in> set (inorder l) then Suc (depth l x)
      else Suc (depth r x))"

text \<open>Two separate ropes in one store: \<^verbatim>\<open>ab\<close> and \<^verbatim>\<open>c\<close>.\<close>

definition ab_c_heap :: heap where
  "ab_c_heap =
     [0 \<mapsto> \<lparr>nvalue = CHR ''a'', parent = Some 1, left = None, right = None, nsize = 1\<rparr>,
      1 \<mapsto> \<lparr>nvalue = CHR ''b'', parent = None, left = Some 0, right = None, nsize = 2\<rparr>,
      2 \<mapsto> \<lparr>nvalue = CHR ''c'', parent = None, left = None, right = None, nsize = 1\<rparr>]"

definition ab_tree :: SplayTree where
  "ab_tree = \<lparr>root = Some 1, tsize = 2\<rparr>"

definition ab_shape :: atree where
  "ab_shape = Br (Br Tip 0 Tip) 1 Tip"

definition c_tree :: SplayTree where
  "c_tree = \<lparr>root = Some 2, tsize = 1\<rparr>"

definition c_shape :: atree where
  "c_shape = Br Tip 2 Tip"

text \<open>
  The rope \<^verbatim>\<open>ab\<close> as the bulk-load insert builds it, the store after \<^verbatim>\<open>insert\<close> of \<^verbatim>\<open>x\<close>
  at rank 1 into it, and the store after \<^verbatim>\<open>locate\<close> has splayed the last node of the
  rope \<^verbatim>\<open>abc\<close> to the root.
\<close>

definition ab_heap :: heap where
  "ab_heap =
     [0 \<mapsto> \<lparr>nvalue = CHR ''a'', parent = Some 1, left = None, right = None, nsize = 1\<rparr>,
      1 \<mapsto> \<lparr>nvalue = CHR ''b'', parent = None, left = Some 0, right = None, nsize = 2\<rparr>]"

definition axb_heap :: heap where
  "axb_heap =
     [0 \<mapsto> \<lparr>nvalue = CHR ''a'', parent = Some 1, left = None, right = None, nsize = 1\<rparr>,
      1 \<mapsto> \<lparr>nvalue = CHR ''b'', parent = Some 2, left = None, right = None, nsize = 1\<rparr>,
      2 \<mapsto> \<lparr>nvalue = CHR ''x'', parent = None, left = Some 0, right = Some 1, nsize = 3\<rparr>]"

definition axb_tree :: SplayTree where
  "axb_tree = \<lparr>root = Some 2, tsize = 3\<rparr>"

definition axb_shape :: atree where
  "axb_shape = Br (Br Tip 0 Tip) 2 (Br Tip 1 Tip)"

definition cba_heap :: heap where
  "cba_heap =
     [0 \<mapsto> \<lparr>nvalue = CHR ''a'', parent = Some 1, left = None, right = None, nsize = 1\<rparr>,
      1 \<mapsto> \<lparr>nvalue = CHR ''b'', parent = Some 2, left = Some 0, right = None, nsize = 2\<rparr>,
      2 \<mapsto> \<lparr>nvalue = CHR ''c'', parent = None, left = Some 1, right = None, nsize = 3\<rparr>]"

definition cba_tree :: SplayTree where
  "cba_tree = \<lparr>root = Some 2, tsize = 3\<rparr>"

text \<open>
  The rope \<^verbatim>\<open>abc\<close> as the bulk-load insert builds it, the store after \<^verbatim>\<open>insert\<close> of \<^verbatim>\<open>x\<close>
  at rank 2 into it, and the store after a following \<^verbatim>\<open>locate\<close> at rank 0. In the last
  one the node of \<^verbatim>\<open>b\<close> (address 1) is a child of two nodes, so the shape that the
  links form from the root names it twice.
\<close>

definition abc_chain_heap :: heap where
  "abc_chain_heap =
     [0 \<mapsto> \<lparr>nvalue = CHR ''a'', parent = Some 1, left = None, right = None, nsize = 1\<rparr>,
      1 \<mapsto> \<lparr>nvalue = CHR ''b'', parent = Some 2, left = Some 0, right = None, nsize = 2\<rparr>,
      2 \<mapsto> \<lparr>nvalue = CHR ''c'', parent = None, left = Some 1, right = None, nsize = 3\<rparr>]"

definition abc_chain_tree :: SplayTree where
  "abc_chain_tree = \<lparr>root = Some 2, tsize = 3\<rparr>"

definition abc_chain_shape :: atree where
  "abc_chain_shape = Br (Br (Br Tip 0 Tip) 1 Tip) 2 Tip"

definition abxc_heap :: heap where
  "abxc_heap =
     [0 \<mapsto> \<lparr>nvalue = CHR ''a'', parent = Some 1, left = None, right = None, nsize = 1\<rparr>,
      1 \<mapsto> \<lparr>nvalue = CHR ''b'', parent = Some 2, left = Some 0, right = None, nsize = 2\<rparr>,
      2 \<mapsto> \<lparr>nvalue = CHR ''c'', parent = Some 3, left = None, right = None, nsize = 1\<rparr>,
      3 \<mapsto> \<lparr>nvalue = CHR ''x'', parent = None, left = Some 1, right = Some 2, nsize = 4\<rparr>]"

definition abxc_tree :: SplayTree where
  "abxc_tree = \<lparr>root = Some 3, tsize = 4\<rparr>"

definition abxc_shape :: atree where
  "abxc_shape = Br (Br (Br Tip 0 Tip) 1 Tip) 3 (Br Tip 2 Tip)"

definition tangled_heap :: heap where
  "tangled_heap =
     [0 \<mapsto> \<lparr>nvalue = CHR ''a'', parent = None, left = Some 3, right = Some 1, nsize = 5\<rparr>,
      1 \<mapsto> \<lparr>nvalue = CHR ''b'', parent = Some 0, left = None, right = None, nsize = 1\<rparr>,
      2 \<mapsto> \<lparr>nvalue = CHR ''c'', parent = Some 3, left = None, right = None, nsize = 1\<rparr>,
      3 \<mapsto> \<lparr>nvalue = CHR ''x'', parent = Some 0, left = Some 1, right = Some 2, nsize = 3\<rparr>]"

definition tangled_tree :: SplayTree where
  "tangled_tree = \<lparr>root = Some 0, tsize = 4\<rparr>"

definition tangled_shape :: atree where
  "tangled_shape = Br (Br (Br Tip 1 Tip) 3 (Br Tip 2 Tip)) 0 (Br Tip 1 Tip)"

section \<open>Machine arithmetic\<close>

lemma unat_add3:
  "unat a + unat b + 1 < 2 ^ 32 \<Longrightarrow> unat (a + b + 1 :: u32) = unat a + unat b + 1"
  by (simp add: unat_word_ariths)

lemma unat_lt32: "unat (w :: u32) < 2 ^ 32"
  using unsigned_less [of w] by simp

section \<open>Reading sizes and framing\<close>

lemma size_of_None [simp]: "size_of h None = Some 0"
  by (simp add: size_of_def)

lemma size_of_Some [simp]: "size_of h (Some c) = map_option nsize (h c)"
  by (simp add: size_of_def)

lemma size_of_upd_other [simp]: "p \<noteq> Some a \<Longrightarrow> size_of (h(a \<mapsto> n)) p = size_of h p"
  by (cases p) auto

lemma heap_tree_cong:
  "(\<And>a. a \<in> set (inorder t) \<Longrightarrow> h' a = h a) \<Longrightarrow> heap_tree h' par t = heap_tree h par t"
  by (induction t arbitrary: par) (auto split: option.splits)

lemma heap_tree_size_of:
  "heap_tree h par t \<Longrightarrow> \<exists>w. size_of h (rootp t) = Some w \<and> unat w = count t"
  by (cases t) (auto split: option.splits)


lemma inorder_plug: "set (inorder (plug fs t)) = set (inorder t) \<union> set (ctx_nodes fs)"
proof (induction fs arbitrary: t)
  case (Cons f fs)
  then show ?case by (cases f) auto
qed simp

lemma count_plug_cong: "count t' = count t \<Longrightarrow> count (plug fs t') = count (plug fs t)"
proof (induction fs arbitrary: t t')
  case (Cons f fs)
  then show ?case by (cases f) auto
qed simp

lemma inorder_plug_cong: "inorder t' = inorder t \<Longrightarrow> inorder (plug fs t') = inorder (plug fs t)"
proof (induction fs arbitrary: t t')
  case (Cons f fs)
  then show ?case by (cases f) auto
qed simp

lemma rootp_plug_cong: "rootp t' = rootp t \<Longrightarrow> rootp (plug fs t') = rootp (plug fs t)"
proof (induction fs arbitrary: t t')
  case (Cons f fs)
  then show ?case by (cases f) auto
qed simp

lemma rootp_plug_frame: "rootp (plug fs (plug_frame f t')) = rootp (plug fs (plug_frame f t))"
  by (rule rootp_plug_cong) (cases f; simp)

lemma distinct_plug:
  "distinct (inorder (plug fs t)) \<longleftrightarrow>
   distinct (inorder t) \<and> distinct (ctx_nodes fs) \<and> set (inorder t) \<inter> set (ctx_nodes fs) = {}"
proof (induction fs arbitrary: t)
  case (Cons f fs)
  then show ?case by (cases f) auto
qed simp

lemma heap_tree_plug:
  "heap_tree h None (plug fs t) \<longleftrightarrow>
   heap_tree h (ctx_parent fs) t \<and> heap_ctx h (rootp t) (count t) fs"
proof (induction fs arbitrary: t)
  case (Cons f fs)
  then show ?case by (cases f) (auto simp: ac_simps split: option.splits)
qed simp

lemma heap_ctx_cong:
  "(\<And>a. a \<in> set (ctx_nodes fs) \<Longrightarrow> h' a = h a) \<Longrightarrow> heap_ctx h' p n fs = heap_ctx h p n fs"
proof (induction fs arbitrary: p n)
  case (Cons f fs)
  have c: "heap_ctx h' q m fs = heap_ctx h q m fs" for q m
    using Cons.prems by (intro Cons.IH) auto
  show ?case
  proof (cases f)
    case (LeftOf a s)
    have "heap_tree h' q s = heap_tree h q s" for q
      using Cons.prems LeftOf by (intro heap_tree_cong) auto
    moreover have "h' a = h a" using Cons.prems LeftOf by auto
    ultimately show ?thesis using LeftOf c by (simp split: option.splits)
  next
    case (RightOf a s)
    have "heap_tree h' q s = heap_tree h q s" for q
      using Cons.prems RightOf by (intro heap_tree_cong) auto
    moreover have "h' a = h a" using Cons.prems RightOf by auto
    ultimately show ?thesis using RightOf c by (simp split: option.splits)
  qed
qed simp

text \<open>Replacing the subtree in the hole: only the link of the nearest frame changes.\<close>

lemma heap_ctx_relink:
  assumes ctx: "heap_ctx h (Some old) n fs"
    and dist: "distinct (ctx_nodes fs)" "old \<notin> set (ctx_nodes fs)"
    and link: "\<And>q. ctx_parent fs = Some q \<Longrightarrow> h' q = Some (relink (the (h q)) old new)"
    and frame: "\<And>a. a \<in> set (ctx_nodes fs) \<Longrightarrow> Some a \<noteq> ctx_parent fs \<Longrightarrow> h' a = h a"
  shows "heap_ctx h' (Some new) n fs"
proof (cases fs)
  case Nil
  then show ?thesis by simp
next
  case (Cons f fs')
  have c: "heap_ctx h' q m fs' = heap_ctx h q m fs'" for q m
    using frame dist Cons by (intro heap_ctx_cong) (cases f; auto)
  show ?thesis
  proof (cases f)
    case (LeftOf a s)
    have t: "heap_tree h' q s = heap_tree h q s" for q
      using frame dist Cons LeftOf by (intro heap_tree_cong) auto
    obtain m where m: "h a = Some m" using ctx Cons LeftOf by (auto split: option.splits)
    have "h' a = Some (relink m old new)" using link [of a] Cons LeftOf m by simp
    then show ?thesis using ctx Cons LeftOf m c t by (simp add: relink_def)
  next
    case (RightOf a s)
    have t: "heap_tree h' q s = heap_tree h q s" for q
      using frame dist Cons RightOf by (intro heap_tree_cong) auto
    obtain m where m: "h a = Some m" using ctx Cons RightOf by (auto split: option.splits)
    have old: "rootp s \<noteq> Some old" using dist Cons RightOf by (cases s) auto
    have "h' a = Some (relink m old new)" using link [of a] Cons RightOf m by simp
    then show ?thesis using ctx Cons RightOf m c t old by (auto simp add: relink_def)
  qed
qed

lemma heap_tree_reparent:
  assumes "heap_tree h par t" "distinct (inorder t)"
    and root: "\<And>b. rootp t = Some b \<Longrightarrow> h' b = Some ((the (h b))\<lparr>parent := par'\<rparr>)"
    and frame: "\<And>a. a \<in> set (inorder t) \<Longrightarrow> Some a \<noteq> rootp t \<Longrightarrow> h' a = h a"
  shows "heap_tree h' par' t"
proof (cases t)
  case Tip
  then show ?thesis by simp
next
  case (Br l a r)
  with assms obtain n where n: "h a = Some n" by (auto split: option.splits)
  have "heap_tree h' (Some a) l = heap_tree h (Some a) l"
    using assms(2) Br by (intro heap_tree_cong frame) auto
  moreover have "heap_tree h' (Some a) r = heap_tree h (Some a) r"
    using assms(2) Br by (intro heap_tree_cong frame) auto
  ultimately show ?thesis using assms(1) Br n root [of a] by simp
qed

section \<open>Rotations\<close>

text \<open>
  What one rotation writes, stated on pointers: \<open>x\<close> is rotated, \<open>y\<close> is the child that
  moves up, \<open>bp\<close> the inner grandchild that changes sides, \<open>par\<close> the node above.
\<close>

lemma rotateRight_exec:
  assumes x: "h x = Some nx" "left nx = Some y" "parent nx = par" "right nx = cp"
    and y: "h y = Some ny" "left ny = ap" "right ny = bp" "x \<noteq> y"
    and b: "case bp of None \<Rightarrow> True
            | Some b \<Rightarrow> b \<noteq> x \<and> b \<noteq> y \<and> ap \<noteq> Some b \<and> cp \<noteq> Some b \<and> h b \<noteq> None"
    and q: "case par of None \<Rightarrow> True
            | Some q \<Rightarrow> q \<noteq> x \<and> q \<noteq> y \<and> bp \<noteq> Some q \<and> ap \<noteq> Some q \<and> cp \<noteq> Some q \<and>
                h q \<noteq> None"
    and sz: "size_of h ap = Some sa" "size_of h bp = Some sb" "size_of h cp = Some sc"
    and ne: "ap \<noteq> Some x" "ap \<noteq> Some y" "cp \<noteq> Some x" "cp \<noteq> Some y"
  shows "\<exists>h'. rotateRight h T x = Some (h', if par = None then T\<lparr>root := Some y\<rparr> else T) \<and>
     h' x = Some (nx\<lparr>parent := Some y, left := bp, nsize := sb + sc + 1\<rparr>) \<and>
     h' y = Some (ny\<lparr>parent := par, right := Some x, nsize := sa + (sb + sc + 1) + 1\<rparr>) \<and>
     (\<forall>b. bp = Some b \<longrightarrow> h' b = Some ((the (h b))\<lparr>parent := Some x\<rparr>)) \<and>
     (\<forall>q. par = Some q \<longrightarrow> h' q = Some (relink (the (h q)) x y)) \<and>
     (\<forall>a. a \<noteq> x \<and> a \<noteq> y \<and> Some a \<noteq> bp \<and> Some a \<noteq> par \<longrightarrow> h' a = h a)"
proof (cases par)
  case None
  show ?thesis
  proof (cases bp)
    case N2: None
    show ?thesis using assms None N2
      by (simp add: rotateRight_def replace_child_def upd_def update_size_def)
  next
    case (Some b)
    then obtain nb where "h b = Some nb" using b by auto
    then show ?thesis using assms None Some
      by (simp add: rotateRight_def replace_child_def upd_def update_size_def)
  qed
next
  case (Some q)
  then obtain nq where nq: "h q = Some nq" using q by auto
  show ?thesis
  proof (cases bp)
    case None
    show ?thesis using assms None Some nq
      by (simp add: rotateRight_def replace_child_def upd_def update_size_def relink_def)
  next
    case S2: (Some b)
    then obtain nb where "h b = Some nb" using b by auto
    then show ?thesis using assms S2 Some nq
      by (simp add: rotateRight_def replace_child_def upd_def update_size_def relink_def)
  qed
qed

lemma rotateLeft_exec:
  assumes x: "h x = Some nx" "right nx = Some y" "parent nx = par" "left nx = ap"
    and y: "h y = Some ny" "left ny = bp" "right ny = cp" "x \<noteq> y"
    and b: "case bp of None \<Rightarrow> True
            | Some b \<Rightarrow> b \<noteq> x \<and> b \<noteq> y \<and> ap \<noteq> Some b \<and> cp \<noteq> Some b \<and> h b \<noteq> None"
    and q: "case par of None \<Rightarrow> True
            | Some q \<Rightarrow> q \<noteq> x \<and> q \<noteq> y \<and> bp \<noteq> Some q \<and> ap \<noteq> Some q \<and> cp \<noteq> Some q \<and>
                h q \<noteq> None"
    and sz: "size_of h ap = Some sa" "size_of h bp = Some sb" "size_of h cp = Some sc"
    and ne: "ap \<noteq> Some x" "ap \<noteq> Some y" "cp \<noteq> Some x" "cp \<noteq> Some y"
  shows "\<exists>h'. rotateLeft h T x = Some (h', if par = None then T\<lparr>root := Some y\<rparr> else T) \<and>
     h' x = Some (nx\<lparr>parent := Some y, right := bp, nsize := sa + sb + 1\<rparr>) \<and>
     h' y = Some (ny\<lparr>parent := par, left := Some x, nsize := (sa + sb + 1) + sc + 1\<rparr>) \<and>
     (\<forall>b. bp = Some b \<longrightarrow> h' b = Some ((the (h b))\<lparr>parent := Some x\<rparr>)) \<and>
     (\<forall>q. par = Some q \<longrightarrow> h' q = Some (relink (the (h q)) x y)) \<and>
     (\<forall>a. a \<noteq> x \<and> a \<noteq> y \<and> Some a \<noteq> bp \<and> Some a \<noteq> par \<longrightarrow> h' a = h a)"
proof (cases par)
  case None
  show ?thesis
  proof (cases bp)
    case N2: None
    show ?thesis using assms None N2
      by (simp add: rotateLeft_def replace_child_def upd_def update_size_def)
  next
    case (Some b)
    then obtain nb where "h b = Some nb" using b by auto
    then show ?thesis using assms None Some
      by (simp add: rotateLeft_def replace_child_def upd_def update_size_def)
  qed
next
  case (Some q)
  then obtain nq where nq: "h q = Some nq" using q by auto
  show ?thesis
  proof (cases bp)
    case None
    show ?thesis using assms None Some nq
      by (simp add: rotateLeft_def replace_child_def upd_def update_size_def relink_def)
  next
    case S2: (Some b)
    then obtain nb where "h b = Some nb" using b by auto
    then show ?thesis using assms S2 Some nq
      by (simp add: rotateLeft_def replace_child_def upd_def update_size_def relink_def)
  qed
qed

lemma rootp_not_in: "a \<notin> set (inorder t) \<Longrightarrow> rootp t \<noteq> Some a"
  by (cases t) auto

lemma rootp_in: "rootp t = Some a \<Longrightarrow> a \<in> set (inorder t)"
  by (cases t) auto

lemma heap_tree_root_alloc: "heap_tree h par t \<Longrightarrow> rootp t = Some b \<Longrightarrow> h b \<noteq> None"
  by (cases t) (auto split: option.splits)

lemma heap_tree_alloc: "heap_tree h par t \<Longrightarrow> a \<in> set (inorder t) \<Longrightarrow> h a \<noteq> None"
  by (induction t arbitrary: par) (auto split: option.splits)

lemma heap_ctx_alloc: "heap_ctx h p n fs \<Longrightarrow> a \<in> set (ctx_nodes fs) \<Longrightarrow> h a \<noteq> None"
proof (induction fs arbitrary: p n)
  case (Cons f fs)
  then show ?case
    by (cases f) (auto split: option.splits dest: heap_tree_alloc)
qed simp

lemma ctx_parent_in: "ctx_parent fs = Some q \<Longrightarrow> q \<in> set (ctx_nodes fs)"
  by (cases fs; cases "hd fs") auto

lemma rootp_plug_nonempty:
  "fs \<noteq> [] \<Longrightarrow> rootp t \<noteq> None \<Longrightarrow> rootp t' \<noteq> None \<Longrightarrow> rootp (plug fs t') = rootp (plug fs t)"
proof (induction fs arbitrary: t t')
  case (Cons f fs)
  show ?case
  proof (cases fs)
    case Nil
    then show ?thesis by (cases f) auto
  next
    case (Cons g gs)
    have "rootp (plug fs (plug_frame f t')) = rootp (plug fs (plug_frame f t))"
      using Cons by (intro Cons.IH) (cases f; simp)+
    then show ?thesis by simp
  qed
qed simp

lemma relinks_refl [simp]: "relinks h h S"
  by (simp add: relinks_def)

lemma relinks_trans:
  "relinks h h1 S1 \<Longrightarrow> relinks h1 h2 S2 \<Longrightarrow> S1 \<subseteq> S \<Longrightarrow> S2 \<subseteq> S \<Longrightarrow> relinks h h2 S"
  unfolding relinks_def by (metis subsetD)

lemma relinks_mono: "relinks h h' S \<Longrightarrow> S \<subseteq> S' \<Longrightarrow> relinks h h' S'"
  by (auto simp: relinks_def)

lemma rotateRight_plug:
  assumes v: "valid h T (plug fs (Br (Br A y B) x C))"
  shows "\<exists>h' T'. rotateRight h T x = Some (h', T') \<and>
           valid h' T' (plug fs (Br A y (Br B x C))) \<and>
           relinks h h' (set (inorder (plug fs (Br (Br A y B) x C)))) \<and> tsize T' = tsize T"
proof -
  let ?s = "Br (Br A y B) x C" and ?s' = "Br A y (Br B x C)"
  let ?par = "ctx_parent fs"
  from v have rt: "root T = rootp (plug fs ?s)" and ts: "unat (tsize T) = count (plug fs ?s)"
    and ht: "heap_tree h None (plug fs ?s)" and d: "distinct (inorder (plug fs ?s))"
    by (simp_all add: valid_def)
  from ht have hs: "heap_tree h ?par ?s" and hc: "heap_ctx h (Some x) (count ?s) fs"
    by (simp_all add: heap_tree_plug)
  from d have ds: "distinct (inorder ?s)" and dc: "distinct (ctx_nodes fs)"
    and dj: "set (inorder ?s) \<inter> set (ctx_nodes fs) = {}"
    by (simp_all add: distinct_plug)
  from hs obtain nx where nx: "h x = Some nx" "parent nx = ?par" "left nx = Some y"
    "right nx = rootp C" "unat (nsize nx) = count ?s"
    and hy: "heap_tree h (Some x) (Br A y B)" and hC: "heap_tree h (Some x) C"
    by (auto split: option.splits)
  from hy obtain ny where ny: "h y = Some ny" "left ny = rootp A" "right ny = rootp B"
    and hA: "heap_tree h (Some y) A" and hB: "heap_tree h (Some y) B"
    by (auto split: option.splits)
  obtain sa where sa: "size_of h (rootp A) = Some sa" "unat sa = count A"
    using heap_tree_size_of [OF hA] by auto
  obtain sb where sb: "size_of h (rootp B) = Some sb" "unat sb = count B"
    using heap_tree_size_of [OF hB] by auto
  obtain sc where sc: "size_of h (rootp C) = Some sc" "unat sc = count C"
    using heap_tree_size_of [OF hC] by auto
  have bound: "count ?s < 2 ^ 32" using nx(5) unat_lt32 [of "nsize nx"] by simp
  have qfacts: "q \<notin> set (inorder ?s) \<and> h q \<noteq> None" if "?par = Some q" for q
    using ctx_parent_in [OF that] dj heap_ctx_alloc [OF hc] by auto
  have pb: "case rootp B of None \<Rightarrow> True
            | Some b \<Rightarrow> b \<noteq> x \<and> b \<noteq> y \<and> rootp A \<noteq> Some b \<and> rootp C \<noteq> Some b \<and> h b \<noteq> None"
  proof (cases "rootp B")
    case (Some b)
    then have "b \<in> set (inorder B)" by (rule rootp_in)
    then show ?thesis using Some ds heap_tree_root_alloc [OF hB Some]
      by (auto intro!: rootp_not_in)
  qed simp
  have pq: "case ?par of None \<Rightarrow> True
            | Some q \<Rightarrow> q \<noteq> x \<and> q \<noteq> y \<and> rootp B \<noteq> Some q \<and> rootp A \<noteq> Some q \<and>
                rootp C \<noteq> Some q \<and> h q \<noteq> None"
  proof (cases ?par)
    case (Some q)
    then show ?thesis using qfacts [OF Some] by (auto intro!: rootp_not_in)
  qed simp
  have ne: "rootp A \<noteq> Some x" "rootp A \<noteq> Some y" "rootp C \<noteq> Some x" "rootp C \<noteq> Some y"
    using ds by (auto intro!: rootp_not_in)
  have xy: "x \<noteq> y" using ds by auto
  from rotateRight_exec [OF nx(1) nx(3) nx(2) nx(4) ny(1) ny(2) ny(3) xy pb pq sa(1) sb(1) sc(1) ne, of T]
  obtain h' where rot: "rotateRight h T x = Some (h', if ?par = None then T\<lparr>root := Some y\<rparr> else T)"
    and h'x: "h' x = Some (nx\<lparr>parent := Some y, left := rootp B, nsize := sb + sc + 1\<rparr>)"
    and h'y: "h' y = Some (ny\<lparr>parent := ?par, right := Some x, nsize := sa + (sb + sc + 1) + 1\<rparr>)"
    and h'b: "\<And>b. rootp B = Some b \<Longrightarrow> h' b = Some ((the (h b))\<lparr>parent := Some x\<rparr>)"
    and h'q: "\<And>q. ?par = Some q \<Longrightarrow> h' q = Some (relink (the (h q)) x y)"
    and h'o: "\<And>a. a \<noteq> x \<Longrightarrow> a \<noteq> y \<Longrightarrow> Some a \<noteq> rootp B \<Longrightarrow> Some a \<noteq> ?par \<Longrightarrow> h' a = h a"
    by blast
  let ?T' = "if ?par = None then T\<lparr>root := Some y\<rparr> else T"
  have notpar: "Some a \<noteq> ?par" if "a \<in> set (inorder ?s)" for a
    using that qfacts [of a] by auto
  have hA': "heap_tree h' (Some y) A"
  proof -
    have "heap_tree h' (Some y) A = heap_tree h (Some y) A"
    proof (rule heap_tree_cong)
      fix a assume a: "a \<in> set (inorder A)"
      then have "rootp B \<noteq> Some a" using ds by (intro rootp_not_in) auto
      then show "h' a = h a" using a ds notpar [of a] by (intro h'o) auto
    qed
    then show ?thesis using hA by simp
  qed
  have hC': "heap_tree h' (Some x) C"
  proof -
    have "heap_tree h' (Some x) C = heap_tree h (Some x) C"
    proof (rule heap_tree_cong)
      fix a assume a: "a \<in> set (inorder C)"
      then have "rootp B \<noteq> Some a" using ds by (intro rootp_not_in) auto
      then show "h' a = h a" using a ds notpar [of a] by (intro h'o) auto
    qed
    then show ?thesis using hC by simp
  qed
  have hB': "heap_tree h' (Some x) B"
  proof (rule heap_tree_reparent [OF hB])
    show "distinct (inorder B)" using ds by simp
    show "\<And>b. rootp B = Some b \<Longrightarrow> h' b = Some ((the (h b))\<lparr>parent := Some x\<rparr>)" by (rule h'b)
    fix a assume a: "a \<in> set (inorder B)" "Some a \<noteq> rootp B"
    then show "h' a = h a" using ds notpar [of a] by (intro h'o) auto
  qed
  have szx: "unat (sb + sc + 1) = count B + count C + 1"
    using sb(2) sc(2) bound by (simp add: unat_add3)
  have szy: "unat (sa + (sb + sc + 1) + 1) = count A + (count B + count C + 1) + 1"
  proof -
    have "unat sa + unat (sb + sc + 1) + 1 < 2 ^ 32"
      using sa(2) szx bound by simp
    then have "unat (sa + (sb + sc + 1) + 1) = unat sa + unat (sb + sc + 1) + 1"
      by (rule unat_add3)
    then show ?thesis using sa(2) szx by simp
  qed
  have hs': "heap_tree h' ?par ?s'"
    using h'x h'y hA' hB' hC' nx ny szx szy by simp
  have hc': "heap_ctx h' (Some y) (count ?s) fs"
  proof (rule heap_ctx_relink [OF hc dc])
    show "x \<notin> set (ctx_nodes fs)" using dj by auto
    show "\<And>q. ?par = Some q \<Longrightarrow> h' q = Some (relink (the (h q)) x y)" by (rule h'q)
    fix a assume a: "a \<in> set (ctx_nodes fs)" "Some a \<noteq> ?par"
    then have "a \<notin> set (inorder ?s)" using dj by auto
    then have "a \<noteq> x" "a \<noteq> y" "rootp B \<noteq> Some a"
      by (auto intro!: rootp_not_in)
    then show "h' a = h a" using a by (intro h'o) auto
  qed
  have cs: "count ?s' = count ?s" by simp
  have hc'': "heap_ctx h' (rootp ?s') (count ?s') fs"
    unfolding cs rootp.simps by (rule hc')
  have ht': "heap_tree h' None (plug fs ?s')"
    unfolding heap_tree_plug using hs' hc'' by blast
  have io: "inorder (plug fs ?s') = inorder (plug fs ?s)"
    by (rule inorder_plug_cong) simp
  have cnt: "count (plug fs ?s') = count (plug fs ?s)"
    by (rule count_plug_cong) simp
  have rt': "root ?T' = rootp (plug fs ?s')"
  proof (cases fs)
    case Nil
    then show ?thesis by simp
  next
    case (Cons f fs')
    then have "rootp (plug fs ?s') = rootp (plug fs ?s)"
      by (intro rootp_plug_nonempty) simp_all
    then show ?thesis using Cons rt by simp
  qed
  have fr: "h' a = h a" if "a \<notin> set (inorder (plug fs ?s))" for a
  proof -
    from that have "a \<notin> set (inorder ?s)" "a \<notin> set (ctx_nodes fs)"
      by (simp_all add: inorder_plug)
    then have "a \<noteq> x" "a \<noteq> y" "Some a \<noteq> rootp B" "Some a \<noteq> ?par"
      using rootp_in [of B a] ctx_parent_in [of fs a] by auto
    then show ?thesis by (rule h'o)
  qed
  have "\<forall>a. map_option nvalue (h' a) = map_option nvalue (h a)"
  proof
    fix a
    consider "a = x" | "a = y" | "rootp B = Some a" | "?par = Some a"
      | "a \<noteq> x" "a \<noteq> y" "Some a \<noteq> rootp B" "Some a \<noteq> ?par"
      by metis
    then show "map_option nvalue (h' a) = map_option nvalue (h a)"
    proof cases
      case 3
      then show ?thesis using h'b [OF 3] heap_tree_root_alloc [OF hB 3] by auto
    next
      case 4
      then show ?thesis using h'q [OF 4] qfacts [OF 4] by (auto simp: relink_def)
    qed (simp_all add: h'x h'y nx ny h'o)
  qed
  then have sv: "relinks h h' (set (inorder (plug fs ?s)))"
    using fr by (simp add: relinks_def)
  have "valid h' ?T' (plug fs ?s')"
    using rt' ts ht' d io cnt by (simp add: valid_def)
  then show ?thesis using rot sv by auto
qed

lemma rotateLeft_plug:
  assumes v: "valid h T (plug fs (Br A x (Br B y C)))"
  shows "\<exists>h' T'. rotateLeft h T x = Some (h', T') \<and>
           valid h' T' (plug fs (Br (Br A x B) y C)) \<and>
           relinks h h' (set (inorder (plug fs (Br A x (Br B y C))))) \<and> tsize T' = tsize T"
proof -
  let ?s = "Br A x (Br B y C)" and ?s' = "Br (Br A x B) y C"
  let ?par = "ctx_parent fs"
  from v have rt: "root T = rootp (plug fs ?s)" and ts: "unat (tsize T) = count (plug fs ?s)"
    and ht: "heap_tree h None (plug fs ?s)" and d: "distinct (inorder (plug fs ?s))"
    by (simp_all add: valid_def)
  from ht have hs: "heap_tree h ?par ?s" and hc: "heap_ctx h (Some x) (count ?s) fs"
    by (simp_all add: heap_tree_plug)
  from d have ds: "distinct (inorder ?s)" and dc: "distinct (ctx_nodes fs)"
    and dj: "set (inorder ?s) \<inter> set (ctx_nodes fs) = {}"
    by (simp_all add: distinct_plug)
  from hs obtain nx where nx: "h x = Some nx" "parent nx = ?par" "right nx = Some y"
    "left nx = rootp A" "unat (nsize nx) = count ?s"
    and hy: "heap_tree h (Some x) (Br B y C)" and hA: "heap_tree h (Some x) A"
    by (auto split: option.splits)
  from hy obtain ny where ny: "h y = Some ny" "left ny = rootp B" "right ny = rootp C"
    and hB: "heap_tree h (Some y) B" and hC: "heap_tree h (Some y) C"
    by (auto split: option.splits)
  obtain sa where sa: "size_of h (rootp A) = Some sa" "unat sa = count A"
    using heap_tree_size_of [OF hA] by auto
  obtain sb where sb: "size_of h (rootp B) = Some sb" "unat sb = count B"
    using heap_tree_size_of [OF hB] by auto
  obtain sc where sc: "size_of h (rootp C) = Some sc" "unat sc = count C"
    using heap_tree_size_of [OF hC] by auto
  have bound: "count ?s < 2 ^ 32" using nx(5) unat_lt32 [of "nsize nx"] by simp
  have qfacts: "q \<notin> set (inorder ?s) \<and> h q \<noteq> None" if "?par = Some q" for q
    using ctx_parent_in [OF that] dj heap_ctx_alloc [OF hc] by auto
  have pb: "case rootp B of None \<Rightarrow> True
            | Some b \<Rightarrow> b \<noteq> x \<and> b \<noteq> y \<and> rootp A \<noteq> Some b \<and> rootp C \<noteq> Some b \<and> h b \<noteq> None"
  proof (cases "rootp B")
    case (Some b)
    then have "b \<in> set (inorder B)" by (rule rootp_in)
    then show ?thesis using Some ds heap_tree_root_alloc [OF hB Some]
      by (auto intro!: rootp_not_in)
  qed simp
  have pq: "case ?par of None \<Rightarrow> True
            | Some q \<Rightarrow> q \<noteq> x \<and> q \<noteq> y \<and> rootp B \<noteq> Some q \<and> rootp A \<noteq> Some q \<and>
                rootp C \<noteq> Some q \<and> h q \<noteq> None"
  proof (cases ?par)
    case (Some q)
    then show ?thesis using qfacts [OF Some] by (auto intro!: rootp_not_in)
  qed simp
  have ne: "rootp A \<noteq> Some x" "rootp A \<noteq> Some y" "rootp C \<noteq> Some x" "rootp C \<noteq> Some y"
    using ds by (auto intro!: rootp_not_in)
  have xy: "x \<noteq> y" using ds by auto
  from rotateLeft_exec [OF nx(1) nx(3) nx(2) nx(4) ny(1) ny(2) ny(3) xy pb pq sa(1) sb(1) sc(1) ne, of T]
  obtain h' where rot: "rotateLeft h T x = Some (h', if ?par = None then T\<lparr>root := Some y\<rparr> else T)"
    and h'x: "h' x = Some (nx\<lparr>parent := Some y, right := rootp B, nsize := sa + sb + 1\<rparr>)"
    and h'y: "h' y = Some (ny\<lparr>parent := ?par, left := Some x, nsize := (sa + sb + 1) + sc + 1\<rparr>)"
    and h'b: "\<And>b. rootp B = Some b \<Longrightarrow> h' b = Some ((the (h b))\<lparr>parent := Some x\<rparr>)"
    and h'q: "\<And>q. ?par = Some q \<Longrightarrow> h' q = Some (relink (the (h q)) x y)"
    and h'o: "\<And>a. a \<noteq> x \<Longrightarrow> a \<noteq> y \<Longrightarrow> Some a \<noteq> rootp B \<Longrightarrow> Some a \<noteq> ?par \<Longrightarrow> h' a = h a"
    by blast
  let ?T' = "if ?par = None then T\<lparr>root := Some y\<rparr> else T"
  have notpar: "Some a \<noteq> ?par" if "a \<in> set (inorder ?s)" for a
    using that qfacts [of a] by auto
  have hA': "heap_tree h' (Some x) A"
  proof -
    have "heap_tree h' (Some x) A = heap_tree h (Some x) A"
    proof (rule heap_tree_cong)
      fix a assume a: "a \<in> set (inorder A)"
      then have "rootp B \<noteq> Some a" using ds by (intro rootp_not_in) auto
      then show "h' a = h a" using a ds notpar [of a] by (intro h'o) auto
    qed
    then show ?thesis using hA by simp
  qed
  have hC': "heap_tree h' (Some y) C"
  proof -
    have "heap_tree h' (Some y) C = heap_tree h (Some y) C"
    proof (rule heap_tree_cong)
      fix a assume a: "a \<in> set (inorder C)"
      then have "rootp B \<noteq> Some a" using ds by (intro rootp_not_in) auto
      then show "h' a = h a" using a ds notpar [of a] by (intro h'o) auto
    qed
    then show ?thesis using hC by simp
  qed
  have hB': "heap_tree h' (Some x) B"
  proof (rule heap_tree_reparent [OF hB])
    show "distinct (inorder B)" using ds by simp
    show "\<And>b. rootp B = Some b \<Longrightarrow> h' b = Some ((the (h b))\<lparr>parent := Some x\<rparr>)" by (rule h'b)
    fix a assume a: "a \<in> set (inorder B)" "Some a \<noteq> rootp B"
    then show "h' a = h a" using ds notpar [of a] by (intro h'o) auto
  qed
  have szx: "unat (sa + sb + 1) = count A + count B + 1"
    using sa(2) sb(2) bound by (simp add: unat_add3)
  have szy: "unat ((sa + sb + 1) + sc + 1) = (count A + count B + 1) + count C + 1"
  proof -
    have "unat (sa + sb + 1) + unat sc + 1 < 2 ^ 32"
      using sc(2) szx bound by simp
    then have "unat ((sa + sb + 1) + sc + 1) = unat (sa + sb + 1) + unat sc + 1"
      by (rule unat_add3)
    then show ?thesis using sc(2) szx by simp
  qed
  have hs': "heap_tree h' ?par ?s'"
    using h'x h'y hA' hB' hC' nx ny szx szy by simp
  have hc': "heap_ctx h' (Some y) (count ?s) fs"
  proof (rule heap_ctx_relink [OF hc dc])
    show "x \<notin> set (ctx_nodes fs)" using dj by auto
    show "\<And>q. ?par = Some q \<Longrightarrow> h' q = Some (relink (the (h q)) x y)" by (rule h'q)
    fix a assume a: "a \<in> set (ctx_nodes fs)" "Some a \<noteq> ?par"
    then have "a \<notin> set (inorder ?s)" using dj by auto
    then have "a \<noteq> x" "a \<noteq> y" "rootp B \<noteq> Some a"
      by (auto intro!: rootp_not_in)
    then show "h' a = h a" using a by (intro h'o) auto
  qed
  have cs: "count ?s' = count ?s" by simp
  have hc'': "heap_ctx h' (rootp ?s') (count ?s') fs"
    unfolding cs rootp.simps by (rule hc')
  have ht': "heap_tree h' None (plug fs ?s')"
    unfolding heap_tree_plug using hs' hc'' by blast
  have io: "inorder (plug fs ?s') = inorder (plug fs ?s)"
    by (rule inorder_plug_cong) simp
  have cnt: "count (plug fs ?s') = count (plug fs ?s)"
    by (rule count_plug_cong) simp
  have rt': "root ?T' = rootp (plug fs ?s')"
  proof (cases fs)
    case Nil
    then show ?thesis by simp
  next
    case (Cons f fs')
    then have "rootp (plug fs ?s') = rootp (plug fs ?s)"
      by (intro rootp_plug_nonempty) simp_all
    then show ?thesis using Cons rt by simp
  qed
  have fr: "h' a = h a" if "a \<notin> set (inorder (plug fs ?s))" for a
  proof -
    from that have "a \<notin> set (inorder ?s)" "a \<notin> set (ctx_nodes fs)"
      by (simp_all add: inorder_plug)
    then have "a \<noteq> x" "a \<noteq> y" "Some a \<noteq> rootp B" "Some a \<noteq> ?par"
      using rootp_in [of B a] ctx_parent_in [of fs a] by auto
    then show ?thesis by (rule h'o)
  qed
  have "\<forall>a. map_option nvalue (h' a) = map_option nvalue (h a)"
  proof
    fix a
    consider "a = x" | "a = y" | "rootp B = Some a" | "?par = Some a"
      | "a \<noteq> x" "a \<noteq> y" "Some a \<noteq> rootp B" "Some a \<noteq> ?par"
      by metis
    then show "map_option nvalue (h' a) = map_option nvalue (h a)"
    proof cases
      case 3
      then show ?thesis using h'b [OF 3] heap_tree_root_alloc [OF hB 3] by auto
    next
      case 4
      then show ?thesis using h'q [OF 4] qfacts [OF 4] by (auto simp: relink_def)
    qed (simp_all add: h'x h'y nx ny h'o)
  qed
  then have sv: "relinks h h' (set (inorder (plug fs ?s)))"
    using fr by (simp add: relinks_def)
  have "valid h' ?T' (plug fs ?s')"
    using rt' ts ht' d io cnt by (simp add: valid_def)
  then show ?thesis using rot sv by auto
qed

section \<open>One splay step\<close>

lemma valid_focus: "valid h T (plug fs t) \<Longrightarrow> heap_tree h (ctx_parent fs) t"
  by (simp add: valid_def heap_tree_plug)

lemma valid_distinct_focus: "valid h T (plug fs t) \<Longrightarrow> distinct (inorder t)"
  by (simp add: valid_def distinct_plug)

lemma relinks_two:
  assumes "relinks h h1 (set (inorder t1))" "relinks h1 h2 (set (inorder t2))"
    and "inorder t1 = inorder t" "inorder t2 = inorder t"
  shows "relinks h h2 (set (inorder t))"
  using assms by (auto intro: relinks_trans)

lemma splay_step_plug:
  assumes v: "valid h T (plug (f # fs) (Br A x B))"
  shows "\<exists>h' T' fs' A' B'. splay_step h T x (frame_addr f) = Some (h', T') \<and>
           valid h' T' (plug fs' (Br A' x B')) \<and> length fs' < length (f # fs) \<and>
           inorder (plug fs' (Br A' x B')) = inorder (plug (f # fs) (Br A x B)) \<and>
           relinks h h' (set (inorder (plug (f # fs) (Br A x B)))) \<and> tsize T' = tsize T"
proof (cases fs)
  case Nil
  show ?thesis
  proof (cases f)
    case (LeftOf p C)
    have v': "valid h T (plug [] (Br (Br A x B) p C))" using v Nil LeftOf by simp
    from valid_focus [OF v'] obtain n pn where
      "h x = Some n" "h p = Some pn" "parent pn = None" "left pn = Some x"
      by (auto split: option.splits)
    then have "splay_step h T x p = rotateRight h T p"
      by (simp add: splay_step_def)
    moreover from rotateRight_plug [OF v'] obtain h' T' where
      "rotateRight h T p = Some (h', T')" "valid h' T' (plug [] (Br A x (Br B p C)))"
      "relinks h h' (set (inorder (plug [] (Br (Br A x B) p C))))" "tsize T' = tsize T" by blast
    ultimately show ?thesis using Nil LeftOf
      by (intro exI [of _ h'] exI [of _ T'] exI [of _ "[]"] exI [of _ A] exI [of _ "Br B p C"]) simp
  next
    case (RightOf p C)
    have v': "valid h T (plug [] (Br C p (Br A x B)))" using v Nil RightOf by simp
    from valid_focus [OF v'] obtain n pn where
      "h x = Some n" "h p = Some pn" "parent pn = None" "left pn = rootp C" "right pn = Some x"
      by (auto split: option.splits)
    moreover have "rootp C \<noteq> Some x" using valid_distinct_focus [OF v'] by (intro rootp_not_in) auto
    ultimately have "splay_step h T x p = rotateLeft h T p"
      by (simp add: splay_step_def)
    moreover from rotateLeft_plug [OF v'] obtain h' T' where
      "rotateLeft h T p = Some (h', T')" "valid h' T' (plug [] (Br (Br C p A) x B))"
      "relinks h h' (set (inorder (plug [] (Br C p (Br A x B)))))" "tsize T' = tsize T" by blast
    ultimately show ?thesis using Nil RightOf
      by (intro exI [of _ h'] exI [of _ T'] exI [of _ "[]"] exI [of _ "Br C p A"] exI [of _ B]) simp
  qed
next
  case (Cons g rest)
  show ?thesis
  proof (cases f; cases g)
    fix p C q D
    assume f: "f = LeftOf p C" and g: "g = LeftOf q D"
    let ?t0 = "plug rest (Br (Br (Br A x B) p C) q D)"
    let ?t1 = "plug rest (Br (Br A x B) p (Br C q D))"
    let ?t2 = "plug rest (Br A x (Br B p (Br C q D)))"
    have e: "plug (f # fs) (Br A x B) = ?t0" using Cons f g by simp
    have v': "valid h T ?t0" using v e by simp
    from valid_focus [OF v'] obtain n pn gn where
      "h x = Some n" "h p = Some pn" "parent pn = Some q" "left pn = Some x"
      "h q = Some gn" "left gn = Some p"
      by (auto split: option.splits)
    then have st: "splay_step h T x p =
       rotateRight h T q \<bind> (\<lambda>(h1, t1). rotateRight h1 t1 p)"
      by (simp add: splay_step_def)
    from rotateRight_plug [OF v'] obtain h1 T1 where
      r1: "rotateRight h T q = Some (h1, T1)" "valid h1 T1 ?t1"
      "relinks h h1 (set (inorder ?t0))" "tsize T1 = tsize T" by blast
    from rotateRight_plug [OF r1(2)] obtain h2 T2 where
      r2: "rotateRight h1 T1 p = Some (h2, T2)" "valid h2 T2 ?t2"
      "relinks h1 h2 (set (inorder ?t1))" "tsize T2 = tsize T1" by blast
    have io1: "inorder ?t1 = inorder ?t0" by (rule inorder_plug_cong) simp
    have io: "inorder ?t2 = inorder ?t0" by (rule inorder_plug_cong) simp
    have "relinks h h2 (set (inorder ?t0))"
      by (rule relinks_two [OF r1(3) r2(3) refl io1])
    then show ?thesis using st r1 r2 io Cons f unfolding e
      by (intro exI [of _ h2] exI [of _ T2] exI [of _ rest] exI [of _ A]
           exI [of _ "Br B p (Br C q D)"]) simp
  next
    fix p C q D
    assume f: "f = LeftOf p C" and g: "g = RightOf q D"
    let ?t0 = "plug rest (Br D q (Br (Br A x B) p C))"
    let ?t1 = "plug rest (Br D q (Br A x (Br B p C)))"
    let ?t2 = "plug rest (Br (Br D q A) x (Br B p C))"
    have e: "plug (f # fs) (Br A x B) = ?t0" using Cons f g by simp
    have v0: "valid h T ?t0" using v e by simp
    then have v': "valid h T (plug (RightOf q D # rest) (Br (Br A x B) p C))" by simp
    from valid_focus [OF v0] obtain n pn gn where
      "h x = Some n" "h p = Some pn" "parent pn = Some q" "left pn = Some x"
      "h q = Some gn" "left gn = rootp D"
      by (auto split: option.splits)
    moreover have "rootp D \<noteq> Some p" using valid_distinct_focus [OF v0] by (intro rootp_not_in) auto
    ultimately have st: "splay_step h T x p =
       rotateRight h T p \<bind> (\<lambda>(h1, t1). rotateLeft h1 t1 q)"
      by (simp add: splay_step_def)
    from rotateRight_plug [OF v'] obtain h1 T1 where
      r1: "rotateRight h T p = Some (h1, T1)"
      "valid h1 T1 (plug (RightOf q D # rest) (Br A x (Br B p C)))"
      "relinks h h1 (set (inorder (plug (RightOf q D # rest) (Br (Br A x B) p C))))"
      "tsize T1 = tsize T" by blast
    have v1: "valid h1 T1 ?t1" using r1(2) by simp
    have r1': "relinks h h1 (set (inorder ?t0))" using r1(3) by simp
    from rotateLeft_plug [OF v1] obtain h2 T2 where
      r2: "rotateLeft h1 T1 q = Some (h2, T2)" "valid h2 T2 ?t2"
      "relinks h1 h2 (set (inorder ?t1))" "tsize T2 = tsize T1" by blast
    have io1: "inorder ?t1 = inorder ?t0" by (rule inorder_plug_cong) simp
    have io: "inorder ?t2 = inorder ?t0" by (rule inorder_plug_cong) simp
    have "relinks h h2 (set (inorder ?t0))"
      by (rule relinks_two [OF r1' r2(3) refl io1])
    then show ?thesis using st r1 r2 io Cons f unfolding e
      by (intro exI [of _ h2] exI [of _ T2] exI [of _ rest] exI [of _ "Br D q A"]
           exI [of _ "Br B p C"]) simp
  next
    fix p C q D
    assume f: "f = RightOf p C" and g: "g = LeftOf q D"
    let ?t0 = "plug rest (Br (Br C p (Br A x B)) q D)"
    let ?t1 = "plug rest (Br (Br (Br C p A) x B) q D)"
    let ?t2 = "plug rest (Br (Br C p A) x (Br B q D))"
    have e: "plug (f # fs) (Br A x B) = ?t0" using Cons f g by simp
    have v0: "valid h T ?t0" using v e by simp
    then have v': "valid h T (plug (LeftOf q D # rest) (Br C p (Br A x B)))" by simp
    from valid_focus [OF v0] obtain n pn gn where
      "h x = Some n" "h p = Some pn" "parent pn = Some q" "left pn = rootp C" "right pn = Some x"
      "h q = Some gn" "left gn = Some p" "right gn = rootp D"
      by (auto split: option.splits)
    moreover have "rootp C \<noteq> Some x" "rootp D \<noteq> Some p"
      using valid_distinct_focus [OF v0] by (auto intro!: rootp_not_in)
    ultimately have st: "splay_step h T x p =
       rotateLeft h T p \<bind> (\<lambda>(h1, t1). rotateRight h1 t1 q)"
      by (simp add: splay_step_def)
    from rotateLeft_plug [OF v'] obtain h1 T1 where
      r1: "rotateLeft h T p = Some (h1, T1)"
      "valid h1 T1 (plug (LeftOf q D # rest) (Br (Br C p A) x B))"
      "relinks h h1 (set (inorder (plug (LeftOf q D # rest) (Br C p (Br A x B)))))"
      "tsize T1 = tsize T" by blast
    have v1: "valid h1 T1 ?t1" using r1(2) by simp
    have r1': "relinks h h1 (set (inorder ?t0))" using r1(3) by simp
    from rotateRight_plug [OF v1] obtain h2 T2 where
      r2: "rotateRight h1 T1 q = Some (h2, T2)" "valid h2 T2 ?t2"
      "relinks h1 h2 (set (inorder ?t1))" "tsize T2 = tsize T1" by blast
    have io1: "inorder ?t1 = inorder ?t0" by (rule inorder_plug_cong) simp
    have io: "inorder ?t2 = inorder ?t0" by (rule inorder_plug_cong) simp
    have "relinks h h2 (set (inorder ?t0))"
      by (rule relinks_two [OF r1' r2(3) refl io1])
    then show ?thesis using st r1 r2 io Cons f unfolding e
      by (intro exI [of _ h2] exI [of _ T2] exI [of _ rest] exI [of _ "Br C p A"]
           exI [of _ "Br B q D"]) simp
  next
    fix p C q D
    assume f: "f = RightOf p C" and g: "g = RightOf q D"
    let ?t0 = "plug rest (Br D q (Br C p (Br A x B)))"
    let ?t1 = "plug rest (Br (Br D q C) p (Br A x B))"
    let ?t2 = "plug rest (Br (Br (Br D q C) p A) x B)"
    have e: "plug (f # fs) (Br A x B) = ?t0" using Cons f g by simp
    have v': "valid h T ?t0" using v e by simp
    from valid_focus [OF v'] obtain n pn gn where
      "h x = Some n" "h p = Some pn" "parent pn = Some q" "left pn = rootp C" "right pn = Some x"
      "h q = Some gn" "left gn = rootp D" "right gn = Some p"
      by (auto split: option.splits)
    moreover have "rootp C \<noteq> Some x" "rootp D \<noteq> Some p"
      using valid_distinct_focus [OF v'] by (auto intro!: rootp_not_in)
    ultimately have st: "splay_step h T x p =
       rotateLeft h T q \<bind> (\<lambda>(h1, t1). rotateLeft h1 t1 p)"
      by (simp add: splay_step_def)
    from rotateLeft_plug [OF v'] obtain h1 T1 where
      r1: "rotateLeft h T q = Some (h1, T1)" "valid h1 T1 ?t1"
      "relinks h h1 (set (inorder ?t0))" "tsize T1 = tsize T" by blast
    from rotateLeft_plug [OF r1(2)] obtain h2 T2 where
      r2: "rotateLeft h1 T1 p = Some (h2, T2)" "valid h2 T2 ?t2"
      "relinks h1 h2 (set (inorder ?t1))" "tsize T2 = tsize T1" by blast
    have io1: "inorder ?t1 = inorder ?t0" by (rule inorder_plug_cong) simp
    have io: "inorder ?t2 = inorder ?t0" by (rule inorder_plug_cong) simp
    have "relinks h h2 (set (inorder ?t0))"
      by (rule relinks_two [OF r1(3) r2(3) refl io1])
    then show ?thesis using st r1 r2 io Cons f unfolding e
      by (intro exI [of _ h2] exI [of _ T2] exI [of _ rest] exI [of _ "Br (Br D q C) p A"]
           exI [of _ B]) simp
  qed
qed

section \<open>The splay loop\<close>

lemma splay_loop_plug:
  "valid h T (plug fs (Br A x B)) \<Longrightarrow>
   \<exists>h' T' A' B'. splay_loop h T x = Some (h', T') \<and> valid h' T' (Br A' x B') \<and>
      inorder (Br A' x B') = inorder (plug fs (Br A x B)) \<and>
      relinks h h' (set (inorder (plug fs (Br A x B)))) \<and> tsize T' = tsize T"
proof (induction "length fs" arbitrary: fs h T A B rule: less_induct)
  case less
  from valid_focus [OF less.prems] obtain n where n: "h x = Some n" "parent n = ctx_parent fs"
    by (auto split: option.splits)
  show ?case
  proof (cases fs)
    case Nil
    then have "splay_loop h T x = Some (h, T)"
      using n by (subst splay_loop.simps) simp
    then show ?thesis using less.prems Nil by auto
  next
    case (Cons f fs')
    let ?t = "plug fs (Br A x B)"
    from splay_step_plug [of h T f fs' A x B] less.prems Cons
    obtain h1 T1 fs1 A1 B1 where s: "splay_step h T x (frame_addr f) = Some (h1, T1)"
      "valid h1 T1 (plug fs1 (Br A1 x B1))" "length fs1 < length fs"
      "inorder (plug fs1 (Br A1 x B1)) = inorder ?t"
      "relinks h h1 (set (inorder ?t))" "tsize T1 = tsize T"
      by auto
    from less.hyps [OF s(3) s(2)] obtain h' T' A' B' where
      l: "splay_loop h1 T1 x = Some (h', T')" "valid h' T' (Br A' x B')"
      "inorder (Br A' x B') = inorder (plug fs1 (Br A1 x B1))"
      "relinks h1 h' (set (inorder (plug fs1 (Br A1 x B1))))"
      "tsize T' = tsize T1"
      by blast
    have "splay_loop h T x = splay_loop h1 T1 x"
      using n Cons s(1) by (subst splay_loop.simps) simp
    moreover have "relinks h h' (set (inorder ?t))"
      by (rule relinks_two [OF s(5) l(4) refl s(4)])
    ultimately show ?thesis using l s
      by (intro exI [of _ h'] exI [of _ T'] exI [of _ A'] exI [of _ B']) simp
  qed
qed

lemma plug_append: "plug (fs @ gs) t = plug gs (plug fs t)"
  by (induction fs arbitrary: t) auto

lemma in_tree_plug: "a \<in> set (inorder t) \<Longrightarrow> \<exists>fs l r. t = plug fs (Br l a r)"
proof (induction t)
  case Tip
  then show ?case by simp
next
  case (Br l b r)
  consider "a = b" | "a \<in> set (inorder l)" | "a \<in> set (inorder r)" using Br.prems by auto
  then show ?case
  proof cases
    case 1
    then show ?thesis by (intro exI [of _ "[]"]) auto
  next
    case 2
    then obtain fs l' r' where "l = plug fs (Br l' a r')" using Br.IH by blast
    then have "Br l b r = plug (fs @ [LeftOf b r]) (Br l' a r')"
      by (simp add: plug_append)
    then show ?thesis by blast
  next
    case 3
    then obtain fs l' r' where "r = plug fs (Br l' a r')" using Br.IH by blast
    then have "Br l b r = plug (fs @ [RightOf b l]) (Br l' a r')"
      by (simp add: plug_append)
    then show ?thesis by blast
  qed
qed

lemma splay_valid:
  assumes "valid h T t" "a \<in> set (inorder t)"
  shows "\<exists>h' T' l r. splay h T (Some a) = Some (h', T') \<and> valid h' T' (Br l a r) \<and>
           inorder (Br l a r) = inorder t \<and> relinks h h' (set (inorder t)) \<and> tsize T' = tsize T"
proof -
  from in_tree_plug [OF assms(2)] obtain fs A B where t: "t = plug fs (Br A a B)" by blast
  from splay_loop_plug [of h T fs A a B] assms(1) t show ?thesis
    by (simp add: splay_def)
qed

section \<open>The order-statistic descent\<close>

lemma length_inorder [simp]: "length (inorder t) = count t"
  by (induction t) auto

lemma count_0 [simp]: "count t = 0 \<longleftrightarrow> t = Tip"
  by (cases t) auto

lemma rootp_None [simp]: "rootp t = None \<longleftrightarrow> t = Tip"
  by (cases t) auto

lemma unat_descend:
  assumes "unat (s :: u32) < unat k"
  shows "unat (k - s - 1) = unat k - unat s - 1"
proof -
  have "s \<le> k" using assms by (simp add: word_le_nat_alt)
  then have 1: "unat (k - s) = unat k - unat s" by (rule unat_sub)
  then have "k - s \<noteq> 0" using assms by auto
  then have "unat (k - s - 1) = unat (k - s) - 1" by (rule unat_minus_one)
  then show ?thesis using 1 by simp
qed

lemma os_loop_correct:
  "heap_tree h par t \<Longrightarrow> t \<noteq> Tip \<Longrightarrow>
   os_loop h (rootp t) k = Some (Some (inorder t ! min (unat k) (count t - 1)))"
proof (induction t arbitrary: par k)
  case Tip
  then show ?case by simp
next
  case (Br l a r)
  from Br.prems obtain n where n: "h a = Some n" "left n = rootp l" "right n = rootp r"
    and hl: "heap_tree h (Some a) l" and hr: "heap_tree h (Some a) r"
    by (auto split: option.splits)
  obtain s where s: "size_of h (rootp l) = Some s" "unat s = count l"
    using heap_tree_size_of [OF hl] by auto
  consider "k = s" | "k < s" | "s < k" by (metis linorder_neqE)
  then show ?case
  proof cases
    case 1
    then have "os_loop h (rootp (Br l a r)) k = Some (Some a)"
      using n s by (subst os_loop.simps) simp
    moreover have "min (unat k) (count (Br l a r) - 1) = count l" using 1 s by simp
    ultimately show ?thesis by (simp add: nth_append)
  next
    case 2
    then have lt: "unat k < count l" using s by (simp add: word_less_nat_alt)
    then have l: "l \<noteq> Tip" by auto
    then obtain b where b: "rootp l = Some b" by (cases l) auto
    have "os_loop h (rootp (Br l a r)) k = os_loop h (rootp l) k"
      using n s 2 b by (subst os_loop.simps) auto
    also have "\<dots> = Some (Some (inorder l ! min (unat k) (count l - 1)))"
      by (rule Br.IH(1) [OF hl l])
    finally have "os_loop h (rootp (Br l a r)) k = Some (Some (inorder l ! unat k))"
      using lt by (simp add: min_absorb1)
    moreover have "min (unat k) (count (Br l a r) - 1) = unat k" using lt by simp
    ultimately show ?thesis using lt by (simp add: nth_append)
  next
    case 3
    then have gt: "count l < unat k" using s by (simp add: word_less_nat_alt)
    have nk: "k \<noteq> s" "\<not> k < s" using 3 by auto
    show ?thesis
    proof (cases r)
      case Tip
      then have "os_loop h (rootp (Br l a r)) k = Some (Some a)"
        using n s nk by (subst os_loop.simps) simp
      moreover have "min (unat k) (count (Br l a r) - 1) = count l" using gt Tip by simp
      ultimately show ?thesis by (simp add: nth_append)
    next
      case (Br rl b rr)
      then have r: "r \<noteq> Tip" by simp
      have "os_loop h (rootp (atree.Br l a r)) k = os_loop h (rootp r) (k - s - 1)"
        using n s nk Br by (subst os_loop.simps) simp
      also have "\<dots> = Some (Some (inorder r ! min (unat (k - s - 1)) (count r - 1)))"
        by (rule Br.IH(2) [OF hr r])
      finally have "os_loop h (rootp (atree.Br l a r)) k =
          Some (Some (inorder r ! min (unat k - count l - 1) (count r - 1)))"
        using unat_descend [of s k] gt s by simp
      moreover have "min (unat k) (count (atree.Br l a r) - 1) =
          count l + 1 + min (unat k - count l - 1) (count r - 1)"
        using gt r by (cases r) (auto simp: min_def)
      ultimately show ?thesis by (simp add: nth_append)
    qed
  qed
qed

lemma locate_valid:
  fixes k :: u32
  assumes v: "valid h T t" and ne: "t \<noteq> Tip"
  defines "m \<equiv> min (unat k) (count t - 1)"
  shows "\<exists>h' T' l r. orderStatisticZeroBasedRanking h T k = Some (h', T', Some (inorder t ! m)) \<and>
           valid h' T' (Br l (inorder t ! m) r) \<and> inorder (Br l (inorder t ! m) r) = inorder t \<and>
           count l = m \<and> relinks h h' (set (inorder t)) \<and> tsize T' = tsize T"
proof -
  let ?a = "inorder t ! m"
  from v have ht: "heap_tree h None t" and rt: "root T = rootp t" and d: "distinct (inorder t)"
    by (simp_all add: valid_def)
  have m: "m < count t" using ne by (cases t) (auto simp: m_def)
  then have a: "?a \<in> set (inorder t)" by simp
  have os: "os_loop h (root T) k = Some (Some ?a)"
    using os_loop_correct [OF ht ne] rt by (simp add: m_def)
  from splay_valid [OF v a] obtain h' T' l r where
    s: "splay h T (Some ?a) = Some (h', T')" "valid h' T' (Br l ?a r)"
       "inorder (Br l ?a r) = inorder t" "relinks h h' (set (inorder t))" "tsize T' = tsize T"
    by blast
  have "(inorder l @ ?a # inorder r) ! count l = ?a" by (simp add: nth_append)
  then have "inorder t ! count l = ?a" using s(3) by simp
  moreover have "count l < count t" using arg_cong [OF s(3), of length] by simp
  ultimately have "count l = m" using d m by (simp add: nth_eq_iff_index_eq)
  then show ?thesis using os s
    by (intro exI [of _ h'] exI [of _ T'] exI [of _ l] exI [of _ r])
      (simp add: orderStatisticZeroBasedRanking_def)
qed

lemma locate_empty:
  "root T = None \<Longrightarrow> orderStatisticZeroBasedRanking h T k = Some (h, T, None)"
  by (simp add: orderStatisticZeroBasedRanking_def splay_def os_loop.simps)

section \<open>Traversal\<close>

lemma text_of_Br:
  "h a = Some n \<Longrightarrow> text_of h (Br l a r) = text_of h l @ nvalue n # text_of h r"
  by (simp add: text_of_def)

lemma text_of_Tip [simp]: "text_of h Tip = []"
  by (simp add: text_of_def)

lemma inOrder_loop_tree:
  "heap_tree h par t \<Longrightarrow>
   inOrder_loop h (rootp t) st res = inOrder_loop h None st (res @ text_of h t)"
proof (induction t arbitrary: par st res)
  case Tip
  then show ?case by simp
next
  case (Br l a r)
  from Br.prems obtain n where n: "h a = Some n" "left n = rootp l" "right n = rootp r"
    and hl: "heap_tree h (Some a) l" and hr: "heap_tree h (Some a) r"
    by (auto split: option.splits)
  have "inOrder_loop h (rootp (Br l a r)) st res = inOrder_loop h (rootp l) (a # st) res"
    using n by (subst inOrder_loop.simps) simp
  also have "\<dots> = inOrder_loop h None (a # st) (res @ text_of h l)"
    by (rule Br.IH(1) [OF hl])
  also have "\<dots> = inOrder_loop h (rootp r) st ((res @ text_of h l) @ [nvalue n])"
    using n by (subst inOrder_loop.simps) simp
  also have "\<dots> = inOrder_loop h None st (((res @ text_of h l) @ [nvalue n]) @ text_of h r)"
    by (rule Br.IH(2) [OF hr])
  finally show ?case using n by (simp add: text_of_Br)
qed

lemma inOrder_valid: "valid h T t \<Longrightarrow> inOrder h T = Some (text_of h t)"
proof (cases t)
  case Tip
  assume "valid h T t"
  then show ?thesis using Tip by (simp add: valid_def inOrder_def)
next
  case (Br l a r)
  assume v: "valid h T t"
  then have "inOrder h T = inOrder_loop h (rootp t) [] []"
    using Br by (simp add: valid_def inOrder_def)
  also have "\<dots> = inOrder_loop h None [] ([] @ text_of h t)"
    using v by (intro inOrder_loop_tree [of h None]) (simp add: valid_def)
  also have "\<dots> = Some (text_of h t)"
    by (subst inOrder_loop.simps) simp
  finally show ?thesis .
qed

lemma text_of_relinks: "relinks h h' S \<Longrightarrow> text_of h' t = text_of h t"
proof -
  assume s: "relinks h h' S"
  have "(case h' a of None \<Rightarrow> CHR 0x00 | Some n \<Rightarrow> nvalue n) =
        (case h a of None \<Rightarrow> CHR 0x00 | Some n \<Rightarrow> nvalue n)" for a
    using s [unfolded relinks_def, THEN conjunct1, rule_format, of a]
    by (cases "h a"; cases "h' a") auto
  then show ?thesis by (simp add: text_of_def)
qed

lemma text_of_inorder_cong: "inorder t' = inorder t \<Longrightarrow> text_of h t' = text_of h t"
  by (simp add: text_of_def)

section \<open>The example rope\<close>

lemma abc_valid: "valid abc_heap abc_tree abc_shape"
  by (simp add: valid_def abc_heap_def abc_tree_def abc_shape_def)

lemma abc_inOrder: "inOrder abc_heap abc_tree = Some ''abc''"
  using inOrder_valid [OF abc_valid] by (simp add: text_of_def abc_heap_def abc_shape_def)

section \<open>Split\<close>

lemma valid_frame:
  assumes "valid h T t" "relinks h h' S" "set (inorder t) \<inter> S = {}"
  shows "valid h' T t"
proof -
  have "heap_tree h' None t = heap_tree h None t"
    using assms(2,3) by (intro heap_tree_cong) (auto simp: relinks_def)
  then show ?thesis using assms(1) by (simp add: valid_def)
qed

lemma valid_createTree [simp]: "valid h createTree Tip"
  by (simp add: valid_def createTree_def)

lemma relinks_trans_same: "relinks h h1 S \<Longrightarrow> relinks h1 h2 S \<Longrightarrow> relinks h h2 S"
  by (simp add: relinks_def)

lemma take_drop_at:
  "xs = ls @ a # rs \<Longrightarrow> length ls = m \<Longrightarrow>
   take (Suc m) xs = ls @ [a] \<and> drop (Suc m) xs = rs"
  by simp

lemma split_valid:
  fixes k :: u32
  assumes v: "valid h T t" and ne: "t \<noteq> Tip"
  defines "m \<equiv> min (unat k) (count t - 1)"
  shows "\<exists>h' T1 T2 t1 t2. split h T k = Some (h', T1, T2) \<and>
           valid h' T1 t1 \<and> valid h' T2 t2 \<and>
           inorder t1 = take (Suc m) (inorder t) \<and> inorder t2 = drop (Suc m) (inorder t) \<and>
           relinks h h' (set (inorder t))"
proof -
  define a where "a = inorder t ! m"
  from locate_valid [OF v ne, of k] obtain h1 T' l r where
    loc: "orderStatisticZeroBasedRanking h T k = Some (h1, T', Some a)"
    and v1: "valid h1 T' (Br l a r)" and io: "inorder (Br l a r) = inorder t"
    and cl: "count l = m" and rl: "relinks h h1 (set (inorder t))"
    unfolding m_def a_def by blast
  have sets: "set (inorder t) = set (inorder l) \<union> {a} \<union> set (inorder r)"
    using arg_cong [OF io, of set] by auto
  from v1 obtain n1 where n1: "h1 a = Some n1" "parent n1 = None" "left n1 = rootp l"
    "right n1 = rootp r" "unat (nsize n1) = count (Br l a r)"
    and hl: "heap_tree h1 (Some a) l" and hr: "heap_tree h1 (Some a) r"
    and d: "distinct (inorder (Br l a r))"
    by (auto simp: valid_def split: option.splits)
  obtain sl where sl: "size_of h1 (rootp l) = Some sl" "unat sl = count l"
    using heap_tree_size_of [OF hl] by auto
  have bound: "count l + 1 < 2 ^ 32" using n1(5) unat_lt32 [of "nsize n1"] by simp
  have szl: "unat (sl + 0 + 1) = count l + 1"
    using unat_add3 [of sl 0] sl(2) bound by simp
  let ?n = "n1\<lparr>right := None, nsize := sl + 0 + 1\<rparr>"
  let ?h3 = "h1(a \<mapsto> ?n)"
  let ?T1 = "createTree\<lparr>root := Some a, tsize := sl + 0 + 1\<rparr>"
  have nl: "rootp l \<noteq> Some a" using d by (intro rootp_not_in) auto
  have hl3: "heap_tree ?h3 (Some a) l"
  proof -
    have "heap_tree ?h3 (Some a) l = heap_tree h1 (Some a) l"
      using d by (intro heap_tree_cong) auto
    then show ?thesis using hl by simp
  qed
  have v3: "valid ?h3 ?T1 (Br l a Tip)"
    using hl3 n1 szl d by (simp add: valid_def)
  have "inorder t = inorder l @ a # inorder r" "length (inorder l) = m"
    using io cl by simp_all
  from take_drop_at [OF this]
  have t1: "inorder (Br l a Tip) = take (Suc m) (inorder t)"
    and t2: "inorder r = drop (Suc m) (inorder t)"
    by simp_all
  have rl3: "relinks h1 ?h3 (set (inorder t))"
    using n1(1) sets by (auto simp: relinks_def)
  show ?thesis
  proof (cases r)
    case Tip
    have "split h T k = Some (?h3, ?T1, createTree)"
      using loc n1 sl nl Tip by (simp add: split_def upd_def update_size_def)
    moreover have "relinks h ?h3 (set (inorder t))"
      by (rule relinks_trans_same [OF rl rl3])
    ultimately show ?thesis using v3 t1 t2 Tip
      by (intro exI [of _ ?h3] exI [of _ ?T1] exI [of _ createTree]
           exI [of _ "Br l a Tip"] exI [of _ Tip]) simp
  next
    case (Br rl b rr)
    from hr Br obtain nb where nb: "h1 b = Some nb" "unat (nsize nb) = count r"
      by (auto split: option.splits)
    have ba: "b \<noteq> a" "b \<notin> set (inorder l)" using d Br by auto
    let ?h4 = "?h3(b \<mapsto> nb\<lparr>parent := None\<rparr>)"
    let ?T2 = "createTree\<lparr>root := Some b, tsize := nsize nb\<rparr>"
    have sp: "split h T k = Some (?h4, ?T1, ?T2)"
      using loc n1 sl nl Br nb ba by (simp add: split_def upd_def update_size_def)
    have hr4: "heap_tree ?h4 None r"
    proof (rule heap_tree_reparent [OF hr])
      show "distinct (inorder r)" using d by simp
      show "\<And>c. rootp r = Some c \<Longrightarrow> ?h4 c = Some ((the (h1 c))\<lparr>parent := None\<rparr>)"
        using Br nb by simp
      show "\<And>c. c \<in> set (inorder r) \<Longrightarrow> Some c \<noteq> rootp r \<Longrightarrow> ?h4 c = h1 c"
        using Br d by auto
    qed
    have v2: "valid ?h4 ?T2 r"
      using hr4 nb Br d by (simp add: valid_def createTree_def)
    have rl4: "relinks ?h3 ?h4 (set (inorder t))"
      using nb(1) ba Br sets by (auto simp: relinks_def)
    have v1': "valid ?h4 ?T1 (Br l a Tip)"
    proof (rule valid_frame [OF v3, of _ "{b}"])
      show "relinks ?h3 ?h4 {b}" using nb(1) ba by (auto simp: relinks_def)
      show "set (inorder (Br l a Tip)) \<inter> {b} = {}" using ba by auto
    qed
    have "relinks h ?h4 (set (inorder t))"
      by (rule relinks_trans_same [OF relinks_trans_same [OF rl rl3] rl4])
    then show ?thesis using sp v1' v2 t1 t2
      by (intro exI [of _ ?h4] exI [of _ ?T1] exI [of _ ?T2]
           exI [of _ "Br l a Tip"] exI [of _ r]) simp
  qed
qed

section \<open>Merge\<close>

lemma max_loop_last:
  "heap_tree h par (Br l a r) \<Longrightarrow> max_loop h a = Some (last (inorder (Br l a r)))"
proof (induction r arbitrary: par l a)
  case Tip
  then show ?case by (subst max_loop.simps) (auto split: option.splits)
next
  case (Br rl b rr)
  from Br.prems obtain n where n: "h a = Some n" "right n = Some b"
    and hr: "heap_tree h (Some a) (Br rl b rr)"
    by (auto split: option.splits)
  have "max_loop h a = max_loop h b"
    using n by (subst max_loop.simps) simp
  also have "\<dots> = Some (last (inorder (Br rl b rr)))"
    by (rule Br.IH(2) [OF hr])
  finally show ?case by simp
qed

lemma subtreeMaximum_valid:
  assumes v: "valid h T t" and ne: "t \<noteq> Tip"
  shows "\<exists>h' T' l m. subtreeMaximum h T (root T) = Some (h', T', Some m) \<and>
           valid h' T' (Br l m Tip) \<and> inorder (Br l m Tip) = inorder t \<and>
           relinks h h' (set (inorder t)) \<and> tsize T' = tsize T"
proof -
  from ne obtain tl a tr where t: "t = Br tl a tr" by (cases t) auto
  define m where "m = last (inorder t)"
  from v t have "heap_tree h None (Br tl a tr)" and rt: "root T = Some a"
    by (simp_all add: valid_def)
  from max_loop_last [OF this(1)] have ml: "max_loop h a = Some m"
    by (simp only: m_def t)
  have "m \<in> set (inorder t)" unfolding m_def using t by (intro last_in_set) simp
  from splay_valid [OF v this] obtain h' T' l r where
    s: "splay h T (Some m) = Some (h', T')" "valid h' T' (Br l m r)"
    "inorder (Br l m r) = inorder t" "relinks h h' (set (inorder t))" "tsize T' = tsize T"
    by blast
  have d: "distinct (inorder l @ m # inorder r)" using s(2) by (simp add: valid_def)
  have "last (inorder l @ m # inorder r) = m" using s(3) m_def by simp
  then have "inorder r = []" using d by (cases "inorder r = []") auto
  then have "r = Tip" by (cases r) auto
  then show ?thesis using s ml rt
    by (intro exI [of _ h'] exI [of _ T'] exI [of _ l] exI [of _ m])
      (simp add: subtreeMaximum_def)
qed

lemma valid_opt_None [simp]: "valid_opt h None t \<longleftrightarrow> t = Tip"
  by (simp add: valid_opt_def)

lemma valid_opt_Some [simp]: "valid_opt h (Some T) t \<longleftrightarrow> valid h T t"
  by (simp add: valid_opt_def)

lemma valid_root_Tip: "valid h T t \<Longrightarrow> root T = None \<longleftrightarrow> t = Tip"
  by (simp add: valid_def)

lemma merge_valid_both:
  assumes v1: "valid h T1 t1" and v2: "valid h T2 t2"
    and ne1: "t1 \<noteq> Tip" and ne2: "t2 \<noteq> Tip"
    and dj: "set (inorder t1) \<inter> set (inorder t2) = {}"
    and bound: "count t1 + count t2 < 2 ^ 32"
  shows "\<exists>h' T' t'. merge h (Some T1) (Some T2) = Some (h', Some T') \<and> valid h' T' t' \<and>
           inorder t' = inorder t1 @ inorder t2 \<and>
           relinks h h' (set (inorder t1) \<union> set (inorder t2))"
proof -
  from subtreeMaximum_valid [OF v1 ne1] obtain h1 T1' l m where
    sm: "subtreeMaximum h T1 (root T1) = Some (h1, T1', Some m)"
    and v1': "valid h1 T1' (Br l m Tip)" and io: "inorder (Br l m Tip) = inorder t1"
    and rl: "relinks h h1 (set (inorder t1))"
    by blast
  have sets: "set (inorder t1) = set (inorder l) \<union> {m}"
    using arg_cong [OF io, of set] by auto
  have v2': "valid h1 T2 t2" by (rule valid_frame [OF v2 rl]) (use dj in auto)
  from ne2 obtain rl2 b rr2 where t2: "t2 = Br rl2 b rr2" by (cases t2) auto
  from v2' t2 obtain nb where nb: "h1 b = Some nb" "unat (nsize nb) = count t2"
    and rt2: "root T2 = Some b" and h2t: "heap_tree h1 None t2" and d2: "distinct (inorder t2)"
    by (auto simp: valid_def split: option.splits)
  from v1' obtain n where n: "h1 m = Some n" "parent n = None" "left n = rootp l"
    "right n = None" and hl: "heap_tree h1 (Some m) l" and d1: "distinct (inorder (Br l m Tip))"
    and rt1: "root T1' = Some m"
    by (auto simp: valid_def split: option.splits)
  obtain sl where sl: "size_of h1 (rootp l) = Some sl" "unat sl = count l"
    using heap_tree_size_of [OF hl] by auto
  have cnt: "count t1 = count l + 1" using arg_cong [OF io, of length] by simp
  have bm: "b \<noteq> m" "b \<notin> set (inorder l)" using dj sets t2 by auto
  have nl: "rootp l \<noteq> Some m" "rootp l \<noteq> Some b"
    using d1 bm by (auto intro!: rootp_not_in)
  obtain a1 where r1: "root T1 = Some a1" using v1 ne1 by (cases t1) (auto simp: valid_def)
  let ?sz = "sl + nsize nb + 1"
  let ?h4 = "h1(b \<mapsto> nb\<lparr>parent := Some m\<rparr>, m \<mapsto> n\<lparr>right := Some b, nsize := ?sz\<rparr>)"
  let ?T' = "T1'\<lparr>tsize := ?sz\<rparr>"
  have mg: "merge h (Some T1) (Some T2) = Some (?h4, Some ?T')"
    using sm r1 rt2 nb n sl bm nl
    by (simp add: merge_def upd_def update_size_def)
  have sz: "unat ?sz = count l + count t2 + 1"
    using unat_add3 [of sl "nsize nb"] sl(2) nb(2) bound cnt by simp
  have hl4: "heap_tree ?h4 (Some m) l"
  proof -
    have "heap_tree ?h4 (Some m) l = heap_tree h1 (Some m) l"
      using d1 bm by (intro heap_tree_cong) auto
    then show ?thesis using hl by simp
  qed
  have h2t4: "heap_tree ?h4 (Some m) t2"
  proof (rule heap_tree_reparent [OF h2t d2])
    show "\<And>c. rootp t2 = Some c \<Longrightarrow> ?h4 c = Some ((the (h1 c))\<lparr>parent := Some m\<rparr>)"
      using t2 nb bm by simp
    show "\<And>c. c \<in> set (inorder t2) \<Longrightarrow> Some c \<noteq> rootp t2 \<Longrightarrow> ?h4 c = h1 c"
      using t2 dj sets by auto
  qed
  have v': "valid ?h4 ?T' (Br l m t2)"
    using hl4 h2t4 n sz rt1 d1 d2 dj sets t2 by (auto simp: valid_def)
  have rl4: "relinks h1 ?h4 (set (inorder t1) \<union> set (inorder t2))"
    using nb(1) n(1) bm sets t2 by (auto simp: relinks_def)
  have "relinks h ?h4 (set (inorder t1) \<union> set (inorder t2))"
    by (rule relinks_trans [OF rl rl4]) simp_all
  then show ?thesis using mg v' io
    by (intro exI [of _ ?h4] exI [of _ "?T'"] exI [of _ "Br l m t2"]) simp
qed

lemma merge_valid:
  assumes v1: "valid_opt h P1 t1" and v2: "valid_opt h P2 t2"
    and dj: "set (inorder t1) \<inter> set (inorder t2) = {}"
    and bound: "count t1 + count t2 < 2 ^ 32"
  shows "\<exists>h' P' t'. merge h P1 P2 = Some (h', P') \<and> valid_opt h' P' t' \<and>
           inorder t' = inorder t1 @ inorder t2 \<and>
           relinks h h' (set (inorder t1) \<union> set (inorder t2))"
proof (cases P1)
  case None
  then have "merge h P1 P2 = Some (h, P2)" by (simp add: merge_def)
  then show ?thesis using v1 v2 None
    by (intro exI [of _ h] exI [of _ P2] exI [of _ t2]) simp
next
  case S1: (Some T1)
  show ?thesis
  proof (cases "t1 = Tip")
    case True
    then have "merge h P1 P2 = Some (h, P2)"
      using v1 S1 by (simp add: merge_def valid_def)
    then show ?thesis using v2 True
      by (intro exI [of _ h] exI [of _ P2] exI [of _ t2]) simp
  next
    case ne1: False
    then obtain a1 where r1: "root T1 = Some a1" using v1 S1 by (cases t1) (auto simp: valid_def)
    show ?thesis
    proof (cases P2)
      case None
      then have "merge h P1 P2 = Some (h, P1)" using S1 r1 by (simp add: merge_def)
      then show ?thesis using v1 v2 None
        by (intro exI [of _ h] exI [of _ P1] exI [of _ t1]) simp
    next
      case S2: (Some T2)
      show ?thesis
      proof (cases "t2 = Tip")
        case True
        then have "merge h P1 P2 = Some (h, P1)"
          using S1 S2 r1 v2 by (auto simp add: merge_def valid_def)
        then show ?thesis using v1 True
          by (intro exI [of _ h] exI [of _ P1] exI [of _ t1]) simp
      next
        case False
        from merge_valid_both [OF _ _ ne1 False dj bound, of h T1 T2] v1 v2 S1 S2
        show ?thesis by (metis valid_opt_Some)
      qed
    qed
  qed
qed

section \<open>Cut and paste\<close>

lemma valid_opt_frame:
  "valid_opt h P t \<Longrightarrow> relinks h h' S \<Longrightarrow> set (inorder t) \<inter> S = {} \<Longrightarrow> valid_opt h' P t"
  by (cases P) (auto intro: valid_frame)

lemma valid_opt_nonempty: "valid_opt h P t \<Longrightarrow> t \<noteq> Tip \<Longrightarrow> \<exists>T. P = Some T \<and> valid h T t"
  by (cases P) auto

lemma map_cut_paste: "map f (cut_paste xs i j k) = cut_paste (map f xs) i j k"
  by (simp add: cut_paste_def Let_def take_map drop_map)

lemma process_valid:
  fixes i j k :: u32
  assumes v: "valid h T t" and ij: "i \<le> j" and jn: "unat j < count t"
    and kb: "unat k + (unat j - unat i + 1) \<le> count t"
  shows "\<exists>h' T' t'. process h T i j k = Some (h', Some T') \<and> valid h' T' t' \<and>
           inorder t' = cut_paste (inorder t) (unat i) (unat j) (unat k) \<and>
           relinks h h' (set (inorder t))"
proof -
  define xs where "xs = inorder t"
  define I J K where "I = unat i" and "J = unat j" and "K = unat k"
  define as bs cs where "as = take I xs" and "bs = drop I (take (Suc J) xs)"
    and "cs = drop (Suc J) xs"
  define ys where "ys = as @ cs"
  have IJ: "I \<le> J" using ij by (simp add: I_def J_def word_le_nat_alt)
  have Jn: "J < length xs" using jn by (simp add: J_def xs_def)
  have n32: "length xs < 2 ^ 32"
    using v unat_lt32 [of "tsize T"] by (simp add: valid_def xs_def)
  have "take I (take (Suc J) xs) = take I xs" using IJ by (simp add: min_absorb1)
  then have tk: "take (Suc J) xs = as @ bs"
    unfolding as_def bs_def using append_take_drop_id [of I "take (Suc J) xs"] by simp
  have xs: "xs = as @ bs @ cs"
    using append_take_drop_id [of "Suc J" xs] tk by (simp add: cs_def)
  have d: "distinct (as @ bs @ cs)" using v xs by (simp add: valid_def xs_def)
  have lens: "length as = I" "length bs = J - I + 1" "length ys = length xs - (J - I + 1)"
    using IJ Jn by (auto simp: as_def bs_def cs_def ys_def)
  have Kb: "K \<le> length ys" using kb lens Jn IJ by (simp add: K_def I_def J_def xs_def)
  have ne: "t \<noteq> Tip" using jn by auto
  have sx: "set xs = set as \<union> set bs \<union> set cs" using xs by auto

  \<comment> \<open>first split, at \<open>j\<close>\<close>
  have "min (unat j) (count t - 1) = J" using jn by (simp add: J_def)
  with split_valid [OF v ne, of j] obtain h1 Tm Tr tm tr where
    s1: "split h T j = Some (h1, Tm, Tr)"
    and vm1: "valid h1 Tm tm" and vr1: "valid h1 Tr tr"
    and im: "inorder tm = take (Suc J) xs" and ir: "inorder tr = cs"
    and r1: "relinks h h1 (set xs)"
    unfolding xs_def cs_def by auto
  have im': "inorder tm = as @ bs" using im tk by simp

  \<comment> \<open>second split, at \<open>i - 1\<close>, when \<open>i > 0\<close>\<close>
  have "\<exists>h2 Pl Tm' tl tm'.
      (if i > 0 then split h1 Tm (i - 1) \<bind> (\<lambda>(h', l, m). Some (h', Some l, m))
       else Some (h1, None, Tm)) = Some (h2, Pl, Tm') \<and>
      valid_opt h2 Pl tl \<and> valid h2 Tm' tm' \<and> valid h2 Tr tr \<and>
      inorder tl = as \<and> inorder tm' = bs \<and> relinks h1 h2 (set xs)"
  proof (cases "i > 0")
    case True
    then have i0: "i \<noteq> 0" by auto
    have I0: "unat (i - 1) = I - 1" "0 < I"
      using unat_minus_one [OF i0] i0 by (simp_all add: I_def unat_gt_0)
    have tmne: "tm \<noteq> Tip" using im' lens by (cases tm) auto
    have "count tm = J + 1" using arg_cong [OF im, of length] Jn by simp
    then have "Suc (min (unat (i - 1)) (count tm - 1)) = I" using I0 IJ by simp
    with split_valid [OF vm1 tmne, of "i - 1"] obtain h2 Tl Tm' tl tm' where
      s2: "split h1 Tm (i - 1) = Some (h2, Tl, Tm')"
      and "valid h2 Tl tl" "valid h2 Tm' tm'"
      and "inorder tl = take I (inorder tm)" "inorder tm' = drop I (inorder tm)"
      and r2: "relinks h1 h2 (set (inorder tm))"
      by auto
    moreover have "valid h2 Tr tr"
      by (rule valid_frame [OF vr1 r2]) (use d ir im' in auto)
    moreover have "relinks h1 h2 (set xs)"
      by (rule relinks_mono [OF r2]) (use im' sx in auto)
    ultimately show ?thesis using True im' lens
      by (intro exI [of _ h2] exI [of _ "Some Tl"] exI [of _ Tm'] exI [of _ tl] exI [of _ tm'])
        simp
  next
    case False
    then have "I = 0" by (simp add: I_def unat_eq_0 word_gt_0)
    then have "as = []" "inorder tm = bs" using im' lens by auto
    then show ?thesis using False vm1 vr1
      by (intro exI [of _ h1] exI [of _ None] exI [of _ Tm] exI [of _ Tip] exI [of _ tm]) simp
  qed
  then obtain h2 Pl Tm' tl tm' where
    s2: "(if i > 0 then split h1 Tm (i - 1) \<bind> (\<lambda>(h', l, m). Some (h', Some l, m))
       else Some (h1, None, Tm)) = Some (h2, Pl, Tm')"
    and vl2: "valid_opt h2 Pl tl" and vm2: "valid h2 Tm' tm'" and vr2: "valid h2 Tr tr"
    and il: "inorder tl = as" and im2: "inorder tm' = bs" and r2: "relinks h1 h2 (set xs)"
    by blast

  \<comment> \<open>the text without the cut range\<close>
  have b3: "count tl + count tr < 2 ^ 32"
    using arg_cong [OF il, of length] arg_cong [OF ir, of length] n32 xs by simp
  have dj3: "set (inorder tl) \<inter> set (inorder tr) = {}" using d il ir by auto
  have vr2': "valid_opt h2 (Some Tr) tr" using vr2 by simp
  from merge_valid [OF vl2 vr2' dj3 b3] obtain h3 Pl' tl' where
    s3: "merge h2 Pl (Some Tr) = Some (h3, Pl')"
    and vl3: "valid_opt h3 Pl' tl'" and il3': "inorder tl' = inorder tl @ inorder tr"
    and r3'': "relinks h2 h3 (set (inorder tl) \<union> set (inorder tr))"
    by blast
  have il3: "inorder tl' = ys" using il3' il ir by (simp add: ys_def)
  have r3': "relinks h2 h3 (set as \<union> set cs)" using r3'' il ir by simp
  have vm3: "valid h3 Tm' tm'"
    by (rule valid_frame [OF vm2 r3']) (use d im2 in auto)
  have r3: "relinks h2 h3 (set xs)"
    by (rule relinks_mono [OF r3']) (use sx in auto)
  have dys: "distinct ys" "set ys \<inter> set bs = {}" using d by (auto simp: ys_def)

  \<comment> \<open>third split, at \<open>k - 1\<close>, when \<open>k > 0\<close>\<close>
  have "\<exists>h4 Pp Pq tp tq.
      (if k > 0 then
         (case Pl' of None \<Rightarrow> None
          | Some l \<Rightarrow> split h3 l (k - 1) \<bind> (\<lambda>(h', l', r'). Some (h', Some l', Some r')))
       else Some (h3, None, Pl')) = Some (h4, Pp, Pq) \<and>
      valid_opt h4 Pp tp \<and> valid_opt h4 Pq tq \<and> valid h4 Tm' tm' \<and>
      inorder tp = take K ys \<and> inorder tq = drop K ys \<and> relinks h3 h4 (set xs)"
  proof (cases "k > 0")
    case True
    then have k0: "k \<noteq> 0" by auto
    have K0: "unat (k - 1) = K - 1" "0 < K"
      using unat_minus_one [OF k0] k0 by (simp_all add: K_def unat_gt_0)
    have tlne: "tl' \<noteq> Tip" using il3 Kb K0 by (cases tl') auto
    from valid_opt_nonempty [OF vl3 tlne] obtain L where L: "Pl' = Some L" "valid h3 L tl'"
      by blast
    have "count tl' = length ys" using arg_cong [OF il3, of length] by simp
    then have "Suc (min (unat (k - 1)) (count tl' - 1)) = K" using K0 Kb by simp
    with split_valid [OF L(2) tlne, of "k - 1"] obtain h4 Tp Tq tp tq where
      s4: "split h3 L (k - 1) = Some (h4, Tp, Tq)"
      and "valid h4 Tp tp" "valid h4 Tq tq"
      and "inorder tp = take K (inorder tl')" "inorder tq = drop K (inorder tl')"
      and r4: "relinks h3 h4 (set (inorder tl'))"
      by auto
    moreover have "valid h4 Tm' tm'"
      by (rule valid_frame [OF vm3 r4]) (use dys il3 im2 in auto)
    moreover have "relinks h3 h4 (set xs)"
      by (rule relinks_mono [OF r4]) (use il3 sx in \<open>auto simp: ys_def\<close>)
    ultimately show ?thesis using True L il3
      by (intro exI [of _ h4] exI [of _ "Some Tp"] exI [of _ "Some Tq"] exI [of _ tp]
           exI [of _ tq]) simp
  next
    case False
    then have "K = 0" by (simp add: K_def unat_eq_0 word_gt_0)
    then show ?thesis using False vl3 vm3 il3
      by (intro exI [of _ h3] exI [of _ None] exI [of _ Pl'] exI [of _ Tip] exI [of _ tl']) simp
  qed
  then obtain h4 Pp Pq tp tq where
    s4: "(if k > 0 then
         (case Pl' of None \<Rightarrow> None
          | Some l \<Rightarrow> split h3 l (k - 1) \<bind> (\<lambda>(h', l', r'). Some (h', Some l', Some r')))
       else Some (h3, None, Pl')) = Some (h4, Pp, Pq)"
    and vp4: "valid_opt h4 Pp tp" and vq4: "valid_opt h4 Pq tq" and vm4: "valid h4 Tm' tm'"
    and ip: "inorder tp = take K ys" and iq: "inorder tq = drop K ys"
    and r4: "relinks h3 h4 (set xs)"
    by blast
  have "set (take K ys) \<inter> set (drop K ys) = {}"
    using dys(1) by (intro set_take_disj_set_drop_if_distinct) simp_all
  then have dpq: "distinct (take K ys @ bs @ drop K ys)"
    using dys d by (auto dest: in_set_takeD in_set_dropD)

  \<comment> \<open>the two final merges\<close>
  have b5: "count tp + count tm' < 2 ^ 32"
    using arg_cong [OF ip, of length] arg_cong [OF im2, of length] n32 lens Kb Jn IJ by simp
  have dj5: "set (inorder tp) \<inter> set (inorder tm') = {}" using dpq ip im2 by auto
  have vm4': "valid_opt h4 (Some Tm') tm'" using vm4 by simp
  from merge_valid [OF vp4 vm4' dj5 b5] obtain h5 Plm tlm where
    s5: "merge h4 Pp (Some Tm') = Some (h5, Plm)"
    and v5: "valid_opt h5 Plm tlm" and i5': "inorder tlm = inorder tp @ inorder tm'"
    and r5'': "relinks h4 h5 (set (inorder tp) \<union> set (inorder tm'))"
    by blast
  have i5: "inorder tlm = take K ys @ bs" using i5' ip im2 by simp
  have r5': "relinks h4 h5 (set (take K ys) \<union> set bs)" using r5'' ip im2 by simp
  have vq5: "valid_opt h5 Pq tq"
    by (rule valid_opt_frame [OF vq4 r5']) (use dpq iq in auto)
  have sub: "set (take K ys) \<subseteq> set xs" "set (drop K ys) \<subseteq> set xs" "set bs \<subseteq> set xs"
    using set_take_subset [of K ys] set_drop_subset [of K ys] sx by (auto simp: ys_def)
  have r5: "relinks h4 h5 (set xs)"
    by (rule relinks_mono [OF r5']) (use sub in auto)
  have b6: "count tlm + count tq < 2 ^ 32"
    using arg_cong [OF i5, of length] arg_cong [OF iq, of length] n32 lens Kb Jn IJ by simp
  have dj6: "set (inorder tlm) \<inter> set (inorder tq) = {}" using dpq i5 iq by auto
  from merge_valid [OF v5 vq5 dj6 b6] obtain h6 P' t' where
    s6: "merge h5 Plm Pq = Some (h6, P')"
    and v6: "valid_opt h6 P' t'" and i6': "inorder t' = inorder tlm @ inorder tq"
    and r6'': "relinks h5 h6 (set (inorder tlm) \<union> set (inorder tq))"
    by blast
  have i6: "inorder t' = take K ys @ bs @ drop K ys" using i6' i5 iq by simp
  have r6': "relinks h5 h6 (set (take K ys @ bs) \<union> set (drop K ys))" using r6'' i5 iq by simp
  have r6: "relinks h5 h6 (set xs)"
    by (rule relinks_mono [OF r6']) (use sub in auto)
  have "t' \<noteq> Tip" using i6 lens by (cases t') auto
  from valid_opt_nonempty [OF v6 this] obtain T' where T': "P' = Some T'" "valid h6 T' t'"
    by blast
  have pr: "process h T i j k = Some (h6, Some T')"
    using s1 s2 s3 s4 s5 s6 T' by (simp add: process_def)
  have "bs = take (J - I + 1) (drop I xs)"
    using IJ by (simp add: bs_def drop_take Suc_diff_le)
  then have "inorder t' = cut_paste xs I J K"
    using i6 by (simp add: cut_paste_def ys_def as_def cs_def)
  moreover have "relinks h h6 (set xs)"
    by (rule relinks_trans_same [OF relinks_trans_same [OF relinks_trans_same
          [OF relinks_trans_same [OF relinks_trans_same [OF r1 r2] r3] r4] r5] r6])
  ultimately show ?thesis using pr T'
    unfolding xs_def I_def J_def K_def by blast
qed

section \<open>The invariants follow from validity\<close>

lemma heap_tree_links: "heap_tree h par t \<Longrightarrow> links h (rootp t) t"
  by (induction t arbitrary: par) (auto split: option.splits)

lemma word_sum_eq:
  "unat (n :: u32) = unat sl + unat sr + 1 \<Longrightarrow> n = 1 + sl + sr"
proof -
  assume a: "unat n = unat sl + unat sr + 1"
  then have "unat sl + unat sr + 1 < 2 ^ 32" using unat_lt32 [of n] by simp
  then have "unat (sl + sr + 1) = unat sl + unat sr + 1" by (rule unat_add3)
  then have "unat n = unat (sl + sr + 1)" using a by simp
  then have "n = sl + sr + 1" by (simp only: word_unat_eq_iff)
  then show ?thesis by simp
qed

lemma heap_tree_size_eq: "heap_tree h par t \<Longrightarrow> a \<in> set (inorder t) \<Longrightarrow> size_eq h a"
proof (induction t arbitrary: par)
  case Tip
  then show ?case by simp
next
  case (Br l b r)
  from Br.prems obtain n where n: "h b = Some n" "left n = rootp l" "right n = rootp r"
    "unat (nsize n) = count l + count r + 1"
    and hl: "heap_tree h (Some b) l" and hr: "heap_tree h (Some b) r"
    by (auto split: option.splits)
  show ?case
  proof (cases "a = b")
    case True
    obtain sl where sl: "size_of h (rootp l) = Some sl" "unat sl = count l"
      using heap_tree_size_of [OF hl] by auto
    obtain sr where sr: "size_of h (rootp r) = Some sr" "unat sr = count r"
      using heap_tree_size_of [OF hr] by auto
    have "nsize n = 1 + sl + sr" using n sl sr by (intro word_sum_eq) simp
    then show ?thesis using True n sl sr by (simp add: size_eq_def)
  next
    case False
    then show ?thesis using Br.prems Br.IH(1) [OF hl] Br.IH(2) [OF hr] by auto
  qed
qed

lemma valid_sizes_ok: "valid h T t \<Longrightarrow> sizes_ok h T t"
proof -
  assume v: "valid h T t"
  then have ht: "heap_tree h None t" and rt: "root T = rootp t"
    and ts: "unat (tsize T) = count t"
    by (simp_all add: valid_def)
  obtain w where w: "size_of h (rootp t) = Some w" "unat w = count t"
    using heap_tree_size_of [OF ht] by auto
  then have "w = tsize T" using ts by (simp add: word_unat_eq_iff)
  then show ?thesis
    using heap_tree_links [OF ht] heap_tree_size_eq [OF ht] rt w
    by (simp add: sizes_ok_def list_all_iff)
qed

lemma heap_tree_parent_ok:
  "heap_tree h par t \<Longrightarrow> distinct (inorder t) \<Longrightarrow> a \<in> set (inorder t) \<Longrightarrow>
   rootp t \<noteq> Some a \<Longrightarrow> parent_ok h a"
proof (induction t arbitrary: par)
  case Tip
  then show ?case by simp
next
  case (Br l b r)
  from Br.prems obtain n where n: "h b = Some n" "left n = rootp l" "right n = rootp r"
    and hl: "heap_tree h (Some b) l" and hr: "heap_tree h (Some b) r"
    by (auto split: option.splits)
  have ab: "a \<noteq> b" using Br.prems by simp
  consider "a \<in> set (inorder l)" | "a \<in> set (inorder r)" using Br.prems ab by auto
  then show ?case
  proof cases
    case 1
    show ?thesis
    proof (cases "rootp l = Some a")
      case True
      then obtain ll lr where l: "l = Br ll a lr" by (cases l) auto
      from hl l obtain m where "h a = Some m" "parent m = Some b" by (auto split: option.splits)
      moreover have "rootp r \<noteq> Some a" using 1 Br.prems(2) by (intro rootp_not_in) auto
      ultimately show ?thesis using n True by (simp add: parent_ok_def)
    next
      case False
      then show ?thesis using Br.IH(1) [OF hl _ 1] Br.prems(2) by simp
    qed
  next
    case 2
    show ?thesis
    proof (cases "rootp r = Some a")
      case True
      then obtain rl rr where r: "r = Br rl a rr" by (cases r) auto
      from hr r obtain m where "h a = Some m" "parent m = Some b" by (auto split: option.splits)
      moreover have "rootp l \<noteq> Some a" using 2 Br.prems(2) by (intro rootp_not_in) auto
      ultimately show ?thesis using n True by (simp add: parent_ok_def)
    next
      case False
      then show ?thesis using Br.IH(2) [OF hr _ 2] Br.prems(2) by simp
    qed
  qed
qed

lemma valid_parents_ok: "valid h T t \<Longrightarrow> parents_ok h T t"
proof -
  assume v: "valid h T t"
  then have ht: "heap_tree h None t" and rt: "root T = rootp t" and d: "distinct (inorder t)"
    by (simp_all add: valid_def)
  show ?thesis
    using heap_tree_links [OF ht] heap_tree_parent_ok [OF ht d] rt
    by (auto simp: parents_ok_def list_all_iff)
qed

section \<open>Insertion\<close>

lemma unat_add1: "unat a + 1 < 2 ^ 32 \<Longrightarrow> unat (a + 1 :: u32) = unat a + 1"
  using unat_add3 [of a 0] by simp

lemma valid_root: "valid h T t \<Longrightarrow> root T = rootp t"
  by (simp add: valid_def)

lemma text_of_cong:
  assumes "\<And>b. b \<in> set (inorder t) \<Longrightarrow> map_option nvalue (h' b) = map_option nvalue (h b)"
  shows "text_of h' t = text_of h t"
proof -
  have "(case h' b of None \<Rightarrow> CHR 0x00 | Some n \<Rightarrow> nvalue n) =
        (case h b of None \<Rightarrow> CHR 0x00 | Some n \<Rightarrow> nvalue n)"
    if "b \<in> set (inorder t)" for b
    using assms [OF that] by (cases "h b"; cases "h' b") auto
  then show ?thesis by (simp add: text_of_def)
qed

lemma insertSpecific_valid:
  assumes v: "valid h T t" and fresh: "a \<notin> set (inorder t)" and bound: "count t + 1 < 2 ^ 32"
  shows "\<exists>h' T'. insertSpecific h T c a = Some (h', T') \<and> valid h' T' (Br t a Tip) \<and>
           text_of h' (Br t a Tip) = text_of h t @ [c]"
proof -
  let ?new = "\<lparr>nvalue = c, parent = None, left = None, right = None, nsize = 1\<rparr>"
  let ?T' = "T\<lparr>root := Some a, tsize := tsize T + 1\<rparr>"
  from v have ht: "heap_tree h None t" and rt: "root T = rootp t" and d: "distinct (inorder t)"
    and ts: "unat (tsize T) = count t"
    by (simp_all add: valid_def)
  have ts': "unat (tsize T + 1) = count t + 1" using unat_add1 [of "tsize T"] ts bound by simp
  show ?thesis
  proof (cases t)
    case Tip
    let ?h' = "h(a \<mapsto> ?new\<lparr>left := None, nsize := 0 + 1\<rparr>)"
    have "insertSpecific h T c a = Some (?h', ?T')"
      using rt Tip by (simp add: insertSpecific_def createNode_def upd_def)
    moreover have "valid ?h' ?T' (Br t a Tip)" using Tip ts' by (simp add: valid_def)
    moreover have "text_of ?h' (Br t a Tip) = text_of h t @ [c]"
      using Tip by (simp add: text_of_def)
    ultimately show ?thesis by blast
  next
    case (Br l r0 rr)
    from ht Br obtain n where n: "h r0 = Some n" "unat (nsize n) = count t"
      by (auto split: option.splits)
    have ra: "r0 \<noteq> a" using fresh Br by auto
    let ?h' = "h(a \<mapsto> ?new, r0 \<mapsto> n\<lparr>parent := Some a\<rparr>,
                 a \<mapsto> ?new\<lparr>left := Some r0, nsize := nsize n + 1\<rparr>)"
    have ins: "insertSpecific h T c a = Some (?h', ?T')"
      using rt Br n ra by (simp add: insertSpecific_def createNode_def upd_def)
    have sz: "unat (nsize n + 1) = count t + 1" using unat_add1 [of "nsize n"] n bound by simp
    have ht': "heap_tree ?h' (Some a) t"
    proof (rule heap_tree_reparent [OF ht d])
      show "\<And>b. rootp t = Some b \<Longrightarrow> ?h' b = Some ((the (h b))\<lparr>parent := Some a\<rparr>)"
        using Br n ra by simp
      show "\<And>b. b \<in> set (inorder t) \<Longrightarrow> Some b \<noteq> rootp t \<Longrightarrow> ?h' b = h b"
        using Br fresh by auto
    qed
    have "valid ?h' ?T' (Br t a Tip)"
      using ht' sz ts' d fresh Br by (simp add: valid_def)
    moreover have "text_of ?h' (Br t a Tip) = text_of h t @ [c]"
    proof -
      have "text_of ?h' t = text_of h t"
        using fresh n by (intro text_of_cong) auto
      moreover have "text_of ?h' (Br t a Tip) = text_of ?h' t @ [c]"
        by (simp add: text_of_def)
      ultimately show ?thesis by simp
    qed
    ultimately show ?thesis using ins by blast
  qed
qed

lemma build_valid:
  "valid h T t \<Longrightarrow> distinct (map snd cs) \<Longrightarrow> set (map snd cs) \<inter> set (inorder t) = {} \<Longrightarrow>
   count t + length cs < 2 ^ 32 \<Longrightarrow>
   \<exists>h' T' t'. build h T cs = Some (h', T') \<and> valid h' T' t' \<and>
      text_of h' t' = text_of h t @ map fst cs"
proof (induction cs arbitrary: h T t)
  case Nil
  then show ?case by auto
next
  case (Cons ca cs)
  obtain c a where ca: "ca = (c, a)" by (cases ca)
  have "a \<notin> set (inorder t)" "count t + 1 < 2 ^ 32" using Cons.prems ca by auto
  from insertSpecific_valid [OF Cons.prems(1) this, of c] obtain h1 T1 where
    i: "insertSpecific h T c a = Some (h1, T1)" "valid h1 T1 (Br t a Tip)"
    "text_of h1 (Br t a Tip) = text_of h t @ [c]"
    by blast
  have "\<exists>h' T' t'. build h1 T1 cs = Some (h', T') \<and> valid h' T' t' \<and>
      text_of h' t' = text_of h1 (Br t a Tip) @ map fst cs"
    using Cons.prems ca by (intro Cons.IH [OF i(2)]) auto
  then show ?case using i ca by auto
qed

lemma valid_createNode:
  assumes "valid h T t" "a \<notin> set (inorder t)"
  shows "valid (createNode h a c) T t"
proof -
  have "heap_tree (createNode h a c) None t = heap_tree h None t"
    using assms(2) by (intro heap_tree_cong) (auto simp: createNode_def)
  then show ?thesis using assms(1) by (simp add: valid_def)
qed

text \<open>
  The branch of \<^verbatim>\<open>insert\<close> for the middle and the beginning. The new node \<open>a\<close> becomes
  the root above the located node \<open>x\<close> and takes over the left subtree \<open>l\<close> of \<open>x\<close>;
  the parent pointer of the root of \<open>l\<close> is not written and still names \<open>x\<close>.
\<close>

lemma insert_at_middle:
  fixes rank :: u32
  assumes v: "valid h T t" and fresh: "a \<notin> set (inorder t)" and bound: "count t + 1 < 2 ^ 32"
    and ne: "t \<noteq> Tip" and rk: "rank \<noteq> tsize T"
  defines "m \<equiv> min (unat rank) (count t - 1)"
  shows "\<exists>h' T' l x r n. insert_at h T rank c a = Some (h', T') \<and>
           root T' = Some a \<and> unat (tsize T') = count t + 1 \<and>
           h' a = Some n \<and> nvalue n = c \<and> parent n = None \<and> left n = rootp l \<and>
           right n = Some x \<and> unat (nsize n) = count t + 1 \<and>
           heap_tree h' (Some x) l \<and> heap_tree h' (Some a) (Br Tip x r) \<and>
           inorder l @ x # inorder r = inorder t \<and> count l = m \<and>
           (\<forall>b \<in> set (inorder t). map_option nvalue (h' b) = map_option nvalue (h b))"
proof -
  let ?new = "\<lparr>nvalue = c, parent = None, left = None, right = None, nsize = 1\<rparr>"
  let ?h0 = "createNode h a c"
  have v0: "valid ?h0 T t" by (rule valid_createNode [OF v fresh])
  have ts: "unat (tsize T) = count t" using v by (simp add: valid_def)
  then have ts0: "tsize T \<noteq> 0" using ne by (metis count_0 unat_0)
  define x where "x = inorder t ! m"
  from locate_valid [OF v0 ne, of rank] obtain h1 T1 l r where
    loc: "orderStatisticZeroBasedRanking ?h0 T rank = Some (h1, T1, Some x)"
    and v1: "valid h1 T1 (Br l x r)" and io: "inorder (Br l x r) = inorder t"
    and cl: "count l = m" and rl: "relinks ?h0 h1 (set (inorder t))"
    and ts1: "tsize T1 = tsize T"
    unfolding m_def x_def by blast
  have sets: "set (inorder t) = set (inorder l) \<union> {x} \<union> set (inorder r)"
    using arg_cong [OF io, of set] by auto
  have cnt: "count t = count l + count r + 1" using arg_cong [OF io, of length] by simp
  have xa: "x \<noteq> a" using fresh sets by auto
  have h1a: "h1 a = Some ?new"
    using rl fresh by (simp add: relinks_def createNode_def)
  from v1 obtain nx where nx: "h1 x = Some nx" "left nx = rootp l" "right nx = rootp r"
    and hl: "heap_tree h1 (Some x) l" and hr: "heap_tree h1 (Some x) r"
    and d: "distinct (inorder (Br l x r))"
    by (auto simp: valid_def split: option.splits)
  obtain sl where sl: "size_of h1 (rootp l) = Some sl" "unat sl = count l"
    using heap_tree_size_of [OF hl] by auto
  obtain sr where sr: "size_of h1 (rootp r) = Some sr" "unat sr = count r"
    using heap_tree_size_of [OF hr] by auto
  have np: "rootp l \<noteq> Some x" "rootp l \<noteq> Some a" "rootp r \<noteq> Some x" "rootp r \<noteq> Some a"
    using d fresh sets by (auto intro!: rootp_not_in)
  let ?nx = "nx\<lparr>parent := Some a, left := None, nsize := sr + 1\<rparr>"
  let ?na = "?new\<lparr>right := Some x, left := rootp l, nsize := sl + (sr + 1) + 1\<rparr>"
  let ?h' = "h1(x \<mapsto> ?nx, a \<mapsto> ?na)"
  let ?T' = "T1\<lparr>tsize := tsize T1 + 1, root := Some a\<rparr>"
  have ins: "insert_at h T rank c a = Some (?h', ?T')"
  proof -
    have "insert_at h T rank c a =
        (case upd h1 a (\<lambda>m. m\<lparr>right := Some x\<rparr>) of None \<Rightarrow> None
         | Some h2 \<Rightarrow> (case h2 x of None \<Rightarrow> None
         | Some rn \<Rightarrow> (case upd h2 a (\<lambda>m. m\<lparr>left := left rn\<rparr>) of None \<Rightarrow> None
         | Some h3 \<Rightarrow> (case upd h3 x (\<lambda>m. m\<lparr>parent := Some a\<rparr>) of None \<Rightarrow> None
         | Some h4 \<Rightarrow> (case upd h4 x (\<lambda>m. m\<lparr>left := None\<rparr>) of None \<Rightarrow> None
         | Some h5 \<Rightarrow> (case h5 x of None \<Rightarrow> None
         | Some rn' \<Rightarrow> (case size_of h5 (right rn') of None \<Rightarrow> None
         | Some rs \<Rightarrow> (case upd h5 x (\<lambda>m. m\<lparr>nsize := rs + 1\<rparr>) of None \<Rightarrow> None
         | Some h6 \<Rightarrow> (case update_size h6 a of None \<Rightarrow> None
         | Some h7 \<Rightarrow> Some (h7, ?T'))))))))))"
      using rk ts0 loc by (simp add: insert_at_def Let_def split: option.splits)
    also have "\<dots> = Some (?h', ?T')"
      using h1a nx sl sr xa np by (simp add: upd_def update_size_def fun_upd_twist)
    finally show ?thesis .
  qed
  have szx: "unat (sr + 1) = count r + 1"
    using unat_add1 [of sr] sr(2) cnt bound by simp
  have sza: "unat (sl + (sr + 1) + 1) = count t + 1"
    using unat_add3 [of sl "sr + 1"] sl(2) szx cnt bound by simp
  have ts': "unat (tsize T1 + 1) = count t + 1"
    using unat_add1 [of "tsize T"] ts ts1 bound by simp
  have hl': "heap_tree ?h' (Some x) l"
  proof -
    have "heap_tree ?h' (Some x) l = heap_tree h1 (Some x) l"
      using d fresh sets by (intro heap_tree_cong) auto
    then show ?thesis using hl by simp
  qed
  have hr': "heap_tree ?h' (Some x) r"
  proof -
    have "heap_tree ?h' (Some x) r = heap_tree h1 (Some x) r"
      using d fresh sets by (intro heap_tree_cong) auto
    then show ?thesis using hr by simp
  qed
  have hx': "heap_tree ?h' (Some a) (Br Tip x r)"
    using hr' nx xa szx by simp
  have vals: "\<forall>b \<in> set (inorder t). map_option nvalue (?h' b) = map_option nvalue (h b)"
  proof
    fix b assume b: "b \<in> set (inorder t)"
    then have ba: "b \<noteq> a" using fresh by auto
    have "map_option nvalue (h1 b) = map_option nvalue (?h0 b)"
      using rl by (simp add: relinks_def)
    then have "map_option nvalue (h1 b) = map_option nvalue (h b)"
      using ba by (simp add: createNode_def)
    then show "map_option nvalue (?h' b) = map_option nvalue (h b)"
      using ba nx by (cases "b = x") auto
  qed
  show ?thesis
    using ins ts' sza hl' hx' io cl vals xa
    by (intro exI [of _ ?h'] exI [of _ ?T'] exI [of _ l] exI [of _ x] exI [of _ r]
         exI [of _ ?na]) simp
qed

lemma insert_at_empty:
  assumes v: "valid h T Tip"
  shows "\<exists>h' T'. insert_at h T rank c a = Some (h', T') \<and> valid h' T' (Br Tip a Tip) \<and>
           text_of h' (Br Tip a Tip) = [c]"
proof -
  from v have "tsize T = 0" by (simp add: valid_def unat_eq_0)
  then show ?thesis
    by (simp add: insert_at_def Let_def createNode_def valid_def text_of_def)
qed

lemma insert_at_end:
  fixes rank :: u32
  assumes v: "valid h T t" and fresh: "a \<notin> set (inorder t)" and bound: "count t + 1 < 2 ^ 32"
    and ne: "t \<noteq> Tip" and rk: "rank = tsize T"
  shows "\<exists>h' T' t'. insert_at h T rank c a = Some (h', T') \<and> valid h' T' (Br t' a Tip) \<and>
           inorder t' = inorder t \<and>
           (\<forall>b \<in> set (inorder t). map_option nvalue (h' b) = map_option nvalue (h b)) \<and>
           map_option nvalue (h' a) = Some c"
proof -
  let ?new = "\<lparr>nvalue = c, parent = None, left = None, right = None, nsize = 1\<rparr>"
  let ?h0 = "createNode h a c"
  have v0: "valid ?h0 T t" by (rule valid_createNode [OF v fresh])
  have ts: "unat (tsize T) = count t" using v by (simp add: valid_def)
  then have ts0: "tsize T \<noteq> 0" using ne by (metis count_0 unat_0)
  then have gt: "0 < tsize T" by (simp add: word_gt_0)
  have r1: "unat (rank - 1) = count t - 1" using unat_minus_one [OF ts0] ts rk by simp
  define x where "x = inorder t ! (count t - 1)"
  from locate_valid [OF v0 ne, of "rank - 1"] r1 obtain h1 T1 l r where
    loc: "orderStatisticZeroBasedRanking ?h0 T (rank - 1) = Some (h1, T1, Some x)"
    and v1: "valid h1 T1 (Br l x r)" and io: "inorder (Br l x r) = inorder t"
    and cl: "count l = count t - 1" and rl: "relinks ?h0 h1 (set (inorder t))"
    and ts1: "tsize T1 = tsize T"
    unfolding x_def by auto
  have cnt: "count t = count l + count r + 1" using arg_cong [OF io, of length] by simp
  then have r: "r = Tip" using cl by (cases r) auto
  have sets: "set (inorder t) = set (inorder l) \<union> {x}"
    using arg_cong [OF io, of set] r by auto
  have xa: "x \<noteq> a" using fresh sets by auto
  have h1a: "h1 a = Some ?new"
    using rl fresh by (simp add: relinks_def createNode_def)
  from v1 r obtain nx where nx: "h1 x = Some nx" "left nx = rootp l" "right nx = None"
    "parent nx = None" "unat (nsize nx) = count t"
    and hl: "heap_tree h1 (Some x) l"
    and d: "distinct (inorder (Br l x Tip))"
    using cnt by (auto simp: valid_def split: option.splits)
  let ?na = "?new\<lparr>left := Some x, nsize := nsize nx + 1\<rparr>"
  let ?h' = "h1(a \<mapsto> ?na, x \<mapsto> nx\<lparr>parent := Some a\<rparr>)"
  let ?T' = "T1\<lparr>tsize := tsize T1 + 1, root := Some a\<rparr>"
  have ins: "insert_at h T rank c a = Some (?h', ?T')"
  proof -
    have "insert_at h T rank c a =
        (case upd h1 a (\<lambda>m. m\<lparr>left := Some x\<rparr>) of None \<Rightarrow> None
         | Some h2 \<Rightarrow> (case h2 x of None \<Rightarrow> None
         | Some ln \<Rightarrow> (case upd h2 a (\<lambda>m. m\<lparr>nsize := nsize ln + 1\<rparr>) of None \<Rightarrow> None
         | Some h3 \<Rightarrow> (case upd h3 x (\<lambda>m. m\<lparr>parent := Some a\<rparr>) of None \<Rightarrow> None
         | Some h4 \<Rightarrow> Some (h4, ?T')))))"
      using rk gt loc by (simp add: insert_at_def Let_def split: option.splits)
    also have "\<dots> = Some (?h', ?T')"
      using h1a nx xa by (simp add: upd_def)
    finally show ?thesis .
  qed
  have sza: "unat (nsize nx + 1) = count t + 1"
    using unat_add1 [of "nsize nx"] nx(5) bound by simp
  have ts': "unat (tsize T1 + 1) = count t + 1"
    using unat_add1 [of "tsize T"] ts ts1 bound by simp
  have hl': "heap_tree ?h' (Some x) l"
  proof -
    have "heap_tree ?h' (Some x) l = heap_tree h1 (Some x) l"
      using d fresh sets by (intro heap_tree_cong) auto
    then show ?thesis using hl by simp
  qed
  have v': "valid ?h' ?T' (Br (Br l x Tip) a Tip)"
    using hl' nx xa sza ts' d fresh sets cnt r by (simp add: valid_def)
  have vals: "\<forall>b \<in> set (inorder t). map_option nvalue (?h' b) = map_option nvalue (h b)"
  proof
    fix b assume b: "b \<in> set (inorder t)"
    then have ba: "b \<noteq> a" using fresh by auto
    have "map_option nvalue (h1 b) = map_option nvalue (?h0 b)"
      using rl by (simp add: relinks_def)
    then have "map_option nvalue (h1 b) = map_option nvalue (h b)"
      using ba by (simp add: createNode_def)
    then show "map_option nvalue (?h' b) = map_option nvalue (h b)"
      using ba nx by (cases "b = x") auto
  qed
  show ?thesis
    using ins v' io r vals xa
    by (intro exI [of _ ?h'] exI [of _ ?T'] exI [of _ "Br l x Tip"]) simp
qed

text \<open>What the middle branch leaves behind, in terms of the invariants.\<close>

lemma insert_at_sizes_ok:
  fixes rank :: u32
  assumes v: "valid h T t" and fresh: "a \<notin> set (inorder t)" and bound: "count t + 1 < 2 ^ 32"
  shows "\<exists>h' T' t'. insert_at h T rank c a = Some (h', T') \<and> sizes_ok h' T' t'"
proof (cases "t = Tip")
  case True
  with insert_at_empty [of h T rank c a] v show ?thesis
    by (metis valid_sizes_ok)
next
  case ne: False
  show ?thesis
  proof (cases "rank = tsize T")
    case True
    from insert_at_end [OF v fresh bound ne True, of c] show ?thesis
      by (metis valid_sizes_ok)
  next
    case False
    from insert_at_middle [OF v fresh bound ne False, of c] obtain h' T' l x r n where
      i: "insert_at h T rank c a = Some (h', T')" "root T' = Some a"
      "unat (tsize T') = count t + 1" "h' a = Some n" "left n = rootp l" "right n = Some x"
      "unat (nsize n) = count t + 1" "heap_tree h' (Some x) l"
      "heap_tree h' (Some a) (Br Tip x r)" "inorder l @ x # inorder r = inorder t"
      by blast
    let ?t' = "Br l a (Br Tip x r)"
    have cnt: "count t = count l + count r + 1" using arg_cong [OF i(10), of length] by simp
    obtain sl where sl: "size_of h' (rootp l) = Some sl" "unat sl = count l"
      using heap_tree_size_of [OF i(8)] by auto
    from i(9) obtain nx where nx: "h' x = Some nx" "unat (nsize nx) = count r + 1"
      by (auto split: option.splits)
    have "nsize n = 1 + sl + nsize nx" using i(7) sl nx cnt by (intro word_sum_eq) simp
    then have "size_eq h' a" using i(4,5,6) sl nx by (simp add: size_eq_def)
    moreover have "links h' (Some a) ?t'"
      using i heap_tree_links [OF i(8)] heap_tree_links [OF i(9)] by simp
    moreover have "tsize T' = nsize n" using i(3,7) by (simp add: word_unat_eq_iff)
    ultimately have "sizes_ok h' T' ?t'"
      using i heap_tree_size_eq [OF i(8)] heap_tree_size_eq [OF i(9)]
      by (auto simp: sizes_ok_def list_all_iff)
    then show ?thesis using i(1) by blast
  qed
qed

lemma insert_at_parent_broken:
  fixes rank :: u32
  assumes v: "valid h T t" and fresh: "a \<notin> set (inorder t)" and bound: "count t + 1 < 2 ^ 32"
    and rk: "0 < rank" "rank < tsize T"
  shows "\<exists>h' T' t'. insert_at h T rank c a = Some (h', T') \<and> links h' (root T') t' \<and>
           \<not> parents_ok h' T' t'"
proof -
  have ts: "unat (tsize T) = count t" using v by (simp add: valid_def)
  have m: "unat rank < count t" "0 < unat rank"
    using rk ts by (simp_all add: word_less_nat_alt)
  then have ne: "t \<noteq> Tip" by auto
  have neq: "rank \<noteq> tsize T" using rk by auto
  have mm: "min (unat rank) (count t - 1) = unat rank" using m by simp
  from insert_at_middle [OF v fresh bound ne neq, of c] mm obtain h' T' l x r n where
    i: "insert_at h T rank c a = Some (h', T')" "root T' = Some a"
    "h' a = Some n" "left n = rootp l" "right n = Some x"
    "heap_tree h' (Some x) l" "heap_tree h' (Some a) (Br Tip x r)"
    "inorder l @ x # inorder r = inorder t" "count l = unat rank"
    by auto
  let ?t' = "Br l a (Br Tip x r)"
  have d: "distinct (inorder l @ x # inorder r)" using v i(8) by (simp add: valid_def)
  from i(9) m obtain ll b lr where l: "l = Br ll b lr" by (cases l) auto
  from i(6) l obtain nb where nb: "h' b = Some nb" "parent nb = Some x"
    by (auto split: option.splits)
  from i(7) obtain nx where nx: "h' x = Some nx" "left nx = None" "right nx = rootp r"
    by (auto split: option.splits)
  have "rootp r \<noteq> Some b" using d l by (intro rootp_not_in) auto
  then have "\<not> parent_ok h' b" using nb nx by (simp add: parent_ok_def)
  moreover have "b \<in> set (inorder t)" using arg_cong [OF i(8), of set] l by auto
  then have "b \<noteq> a" using fresh by auto
  moreover have "b \<in> set (inorder ?t')" using l by simp
  ultimately have "\<not> parents_ok h' T' ?t'"
    using i(2) by (auto simp: parents_ok_def list_all_iff)
  moreover have "links h' (root T') ?t'"
    using i heap_tree_links [OF i(6)] heap_tree_links [OF i(7)] by simp
  ultimately show ?thesis using i(1) by blast
qed

section \<open>Depth and single rotations\<close>

lemma depth_plug_add:
  "x \<in> set (inorder u) \<Longrightarrow> distinct (inorder (plug fs u)) \<Longrightarrow>
   depth (plug fs u) x = depth u x + length fs"
proof (induction fs arbitrary: u)
  case Nil
  then show ?case by simp
next
  case (Cons f fs)
  have d: "distinct (inorder (plug_frame f u))"
    using Cons.prems(2) by (simp add: distinct_plug)
  have "depth (plug_frame f u) x = Suc (depth u x)"
    using d Cons.prems(1) by (cases f) auto
  moreover have "depth (plug fs (plug_frame f u)) x = depth (plug_frame f u) x + length fs"
    using Cons.prems by (intro Cons.IH) (cases f; auto)+
  ultimately show ?case by simp
qed

lemma depth_plug:
  "distinct (inorder (plug fs (Br l x r))) \<Longrightarrow> depth (plug fs (Br l x r)) x = length fs"
  using depth_plug_add [of x "Br l x r" fs] by simp

lemma rootp_plug_in_ctx: "fs \<noteq> [] \<Longrightarrow> \<exists>q. rootp (plug fs t) = Some q \<and> q \<in> set (ctx_nodes fs)"
proof (induction fs arbitrary: t)
  case Nil
  then show ?case by simp
next
  case (Cons f fs)
  show ?case
  proof (cases fs)
    case Nil
    then show ?thesis by (cases f) auto
  next
    case (Cons g gs)
    then show ?thesis using Cons.IH [of "plug_frame f t"] by auto
  qed
qed

lemma root_iff_no_parent:
  assumes v: "valid h T t" and x: "x \<in> set (inorder t)"
  shows "\<exists>n. h x = Some n \<and> (parent n = None \<longleftrightarrow> root T = Some x)"
proof -
  from in_tree_plug [OF x] obtain fs l r where t: "t = plug fs (Br l x r)" by blast
  from valid_focus [OF v [unfolded t]] obtain n where n: "h x = Some n" "parent n = ctx_parent fs"
    by (auto split: option.splits)
  have rt: "root T = rootp (plug fs (Br l x r))" using v t by (simp add: valid_def)
  have dj: "x \<notin> set (ctx_nodes fs)" using v t by (simp add: valid_def distinct_plug)
  show ?thesis
  proof (cases fs)
    case Nil
    then show ?thesis using n rt by simp
  next
    case (Cons f fs')
    then obtain q where "rootp (plug fs (Br l x r)) = Some q" "q \<in> set (ctx_nodes fs)"
      using rootp_plug_in_ctx [of fs "Br l x r"] by auto
    then have "root T \<noteq> Some x" using rt dj by auto
    then show ?thesis using n Cons by simp
  qed
qed

lemma rotateRight_valid:
  assumes v: "valid h T t" and x: "x \<in> set (inorder t)"
  shows "\<exists>h' T' t'. rotateRight h T x = Some (h', T') \<and> valid h' T' t' \<and>
           inorder t' = inorder t \<and> relinks h h' (set (inorder t))"
proof -
  from in_tree_plug [OF x] obtain fs l r where t: "t = plug fs (Br l x r)" by blast
  show ?thesis
  proof (cases l)
    case Tip
    from valid_focus [OF v [unfolded t]] Tip obtain n where "h x = Some n" "left n = None"
      by (auto split: option.splits)
    then have "rotateRight h T x = Some (h, T)" by (simp add: rotateRight_def)
    then show ?thesis using v by (intro exI [of _ h] exI [of _ T] exI [of _ t]) simp
  next
    case (Br A y B)
    from rotateRight_plug [of h T fs A y B x r] v t Br obtain h' T' where
      "rotateRight h T x = Some (h', T')" "valid h' T' (plug fs (Br A y (Br B x r)))"
      "relinks h h' (set (inorder t))"
      by auto
    moreover have "inorder (plug fs (Br A y (Br B x r))) = inorder t"
      unfolding t Br by (rule inorder_plug_cong) simp
    ultimately show ?thesis by blast
  qed
qed

lemma rotateLeft_valid:
  assumes v: "valid h T t" and x: "x \<in> set (inorder t)"
  shows "\<exists>h' T' t'. rotateLeft h T x = Some (h', T') \<and> valid h' T' t' \<and>
           inorder t' = inorder t \<and> relinks h h' (set (inorder t))"
proof -
  from in_tree_plug [OF x] obtain fs l r where t: "t = plug fs (Br l x r)" by blast
  show ?thesis
  proof (cases r)
    case Tip
    from valid_focus [OF v [unfolded t]] Tip obtain n where "h x = Some n" "right n = None"
      by (auto split: option.splits)
    then have "rotateLeft h T x = Some (h, T)" by (simp add: rotateLeft_def)
    then show ?thesis using v by (intro exI [of _ h] exI [of _ T] exI [of _ t]) simp
  next
    case (Br B y C)
    from rotateLeft_plug [of h T fs l x B y C] v t Br obtain h' T' where
      "rotateLeft h T x = Some (h', T')" "valid h' T' (plug fs (Br (Br l x B) y C))"
      "relinks h h' (set (inorder t))"
      by auto
    moreover have "inorder (plug fs (Br (Br l x B) y C)) = inorder t"
      unfolding t Br by (rule inorder_plug_cong) simp
    ultimately show ?thesis by blast
  qed
qed

lemma splay_step_valid:
  assumes v: "valid h T t" and x: "x \<in> set (inorder t)"
    and p: "h x = Some n" "parent n = Some p"
  shows "\<exists>h' T' t'. splay_step h T x p = Some (h', T') \<and> valid h' T' t' \<and>
           inorder t' = inorder t \<and> depth t' x < depth t x"
proof -
  from in_tree_plug [OF x] obtain fs l r where t: "t = plug fs (Br l x r)" by blast
  from valid_focus [OF v [unfolded t]] p have cp: "ctx_parent fs = Some p"
    by (auto split: option.splits)
  then obtain f fs' where fs: "fs = f # fs'" "frame_addr f = p" by (cases fs) auto
  from splay_step_plug [of h T f fs' l x r] v t fs obtain h' T' fs1 A B where
    s: "splay_step h T x p = Some (h', T')" "valid h' T' (plug fs1 (Br A x B))"
    "length fs1 < length fs" "inorder (plug fs1 (Br A x B)) = inorder t"
    by auto
  have "depth (plug fs1 (Br A x B)) x = length fs1"
    using s(2) by (intro depth_plug) (simp add: valid_def)
  moreover have "depth t x = length fs"
    unfolding t using v t by (intro depth_plug) (simp add: valid_def)
  ultimately show ?thesis using s by (intro exI [of _ h'] exI [of _ T']
        exI [of _ "plug fs1 (Br A x B)"]) simp
qed

lemma ab_valid: "valid ab_c_heap ab_tree ab_shape"
  by (simp add: valid_def ab_c_heap_def ab_tree_def ab_shape_def)

lemma c_valid: "valid ab_c_heap c_tree c_shape"
  by (simp add: valid_def ab_c_heap_def c_tree_def c_shape_def)

lemma valid_Tip_createTree: "valid h T Tip \<Longrightarrow> T = createTree"
  by (cases T) (simp add: valid_def createTree_def unat_eq_0)

lemma text_of_take: "inorder t1 = take n (inorder t) \<Longrightarrow> text_of h t1 = take n (text_of h t)"
  by (simp add: text_of_def take_map)

lemma text_of_drop: "inorder t1 = drop n (inorder t) \<Longrightarrow> text_of h t1 = drop n (text_of h t)"
  by (simp add: text_of_def drop_map)

lemma text_of_append:
  "inorder t' = inorder t1 @ inorder t2 \<Longrightarrow> text_of h t' = text_of h t1 @ text_of h t2"
  by (simp add: text_of_def)

lemma split_text:
  fixes rank :: u32
  assumes v: "valid h T t" and rk: "rank < tsize T"
  shows "\<exists>h' T1 T2 t1 t2. split h T rank = Some (h', T1, T2) \<and>
           valid h' T1 t1 \<and> valid h' T2 t2 \<and>
           text_of h' t1 = take (unat rank + 1) (text_of h t) \<and>
           text_of h' t2 = drop (unat rank + 1) (text_of h t) \<and>
           set (inorder t1) \<inter> set (inorder t2) = {} \<and> count t1 + count t2 = count t \<and>
           inorder t2 = drop (unat rank + 1) (inorder t)"
proof -
  from assms have k: "unat rank < count t" by (simp add: valid_def word_less_nat_alt)
  then have ne: "t \<noteq> Tip" by auto
  have m: "min (unat rank) (count t - 1) = unat rank" using k by simp
  from split_valid [OF v ne, of rank] m obtain h' T1 T2 t1 t2 where
    s: "split h T rank = Some (h', T1, T2)" "valid h' T1 t1" "valid h' T2 t2"
    "inorder t1 = take (Suc (unat rank)) (inorder t)"
    "inorder t2 = drop (Suc (unat rank)) (inorder t)"
    "relinks h h' (set (inorder t))"
    by auto
  have d: "distinct (inorder t)" using v by (simp add: valid_def)
  have "text_of h' t1 = take (unat rank + 1) (text_of h t)"
    using text_of_take [OF s(4), of h] text_of_relinks [OF s(6), of t1] by simp
  moreover have "text_of h' t2 = drop (unat rank + 1) (text_of h t)"
    using text_of_drop [OF s(5), of h] text_of_relinks [OF s(6), of t2] by simp
  moreover have "set (inorder t1) \<inter> set (inorder t2) = {}"
    unfolding s(4,5) using d by (intro set_take_disj_set_drop_if_distinct) simp_all
  moreover have "count t1 + count t2 = count t"
    using arg_cong [OF s(4), of length] arg_cong [OF s(5), of length] k by simp
  ultimately show ?thesis using s by (intro exI [of _ h'] exI [of _ T1] exI [of _ T2]
        exI [of _ t1] exI [of _ t2]) simp
qed

lemma merge_Some_Some:
  assumes "merge h (Some T1) (Some T2) = Some (h', P)"
  shows "\<exists>T'. P = Some T'"
  using assms
  by (auto simp: merge_def upd_def update_size_def split: option.splits if_splits prod.splits
      bind_splits)

lemma merge_text:
  assumes v1: "valid h T1 t1" and v2: "valid h T2 t2"
    and dj: "set (inorder t1) \<inter> set (inorder t2) = {}"
    and bound: "count t1 + count t2 < 2 ^ 32"
  shows "\<exists>h' T' t'. merge h (Some T1) (Some T2) = Some (h', Some T') \<and> valid h' T' t' \<and>
           text_of h' t' = text_of h t1 @ text_of h t2"
proof -
  have "valid_opt h (Some T1) t1" "valid_opt h (Some T2) t2" using v1 v2 by simp_all
  from merge_valid [OF this dj bound] obtain h' P' t' where
    m: "merge h (Some T1) (Some T2) = Some (h', P')" "valid_opt h' P' t'"
    "inorder t' = inorder t1 @ inorder t2"
    "relinks h h' (set (inorder t1) \<union> set (inorder t2))"
    by blast
  from merge_Some_Some [OF m(1)] obtain T' where T': "P' = Some T'" by blast
  have "text_of h' t' = text_of h t'" by (rule text_of_relinks [OF m(4)])
  also have "\<dots> = text_of h t1 @ text_of h t2" by (rule text_of_append [OF m(3)])
  finally show ?thesis using m T' by auto
qed

lemma process_text:
  fixes i j k :: u32
  assumes v: "valid h T t" and ij: "i \<le> j" and jn: "j < tsize T"
    and kb: "unat k \<le> unat (tsize T) - (unat j - unat i + 1)"
  shows "\<exists>h' T' t'. process h T i j k = Some (h', Some T') \<and> valid h' T' t' \<and>
           text_of h' t' = cut_paste (text_of h t) (unat i) (unat j) (unat k)"
proof -
  have ts: "unat (tsize T) = count t" using v by (simp add: valid_def)
  have jn': "unat j < count t" using jn ts by (simp add: word_less_nat_alt)
  have "unat i \<le> unat j" using ij by (simp add: word_le_nat_alt)
  then have kb': "unat k + (unat j - unat i + 1) \<le> count t" using kb ts jn' by simp
  from process_valid [OF v ij jn' kb'] obtain h' T' t' where
    p: "process h T i j k = Some (h', Some T')" "valid h' T' t'"
    "inorder t' = cut_paste (inorder t) (unat i) (unat j) (unat k)"
    "relinks h h' (set (inorder t))"
    by blast
  have "text_of h' t' = text_of h t'" by (rule text_of_relinks [OF p(4)])
  also have "\<dots> = cut_paste (text_of h t) (unat i) (unat j) (unat k)"
    using p(3) by (simp add: text_of_def map_cut_paste)
  finally show ?thesis using p by blast
qed

section \<open>After the insert in the middle\<close>

text \<open>
  In the store that \<^verbatim>\<open>insert\<close> leaves behind, the node at address 0 is neither child of
  the node its parent pointer names. An iteration of the splay loop on it changes
  nothing, so the loop, and with it \<^verbatim>\<open>locate\<close> at rank 0, never returns.
\<close>

lemma splay_step_stuck: "splay_step axb_heap axb_tree 0 1 = Some (axb_heap, axb_tree)"
  by (simp add: splay_step_def axb_heap_def)

lemma splay_loop_stuck: "splay_loop axb_heap axb_tree 0 = None"
proof (rule ccontr)
  assume "splay_loop axb_heap axb_tree 0 \<noteq> None"
  then obtain y where y: "splay_loop axb_heap axb_tree 0 = Some y" by auto
  have a0: "axb_heap 0 = Some \<lparr>nvalue = CHR ''a'', parent = Some 1, left = None, right = None,
      nsize = 1\<rparr>"
    by (simp add: axb_heap_def)
  have "\<not> (axb_heap = axb_heap \<and> axb_tree = axb_tree \<and> (0 :: addr) = 0)"
  proof (rule splay_loop.raw_induct
      [where P = "\<lambda>h tree node y. \<not> (h = axb_heap \<and> tree = axb_tree \<and> node = 0)", OF _ y])
    fix f h tree node r
    assume ih: "\<And>h tree node y. f h tree node = Some y \<Longrightarrow>
        \<not> (h = axb_heap \<and> tree = axb_tree \<and> node = 0)"
      and body: "(case h node of None \<Rightarrow> None
        | Some n \<Rightarrow>
            (case parent n of None \<Rightarrow> Some (h, tree)
             | Some p \<Rightarrow>
                 (case splay_step h tree node p of None \<Rightarrow> None
                  | Some s \<Rightarrow> f (fst s) (snd s) node))) = Some r"
    show "\<not> (h = axb_heap \<and> tree = axb_tree \<and> node = 0)"
    proof
      assume a: "h = axb_heap \<and> tree = axb_tree \<and> node = 0"
      then have "f axb_heap axb_tree 0 = Some r"
        using body a0 splay_step_stuck by simp
      then show False using ih by blast
    qed
  qed
  then show False by simp
qed

lemma locate_stuck: "orderStatisticZeroBasedRanking axb_heap axb_tree 0 = None"
proof -
  have "os_loop axb_heap (root axb_tree) 0 = Some (Some 0)"
    by (simp add: os_loop.simps axb_heap_def axb_tree_def)
  then show ?thesis
    by (simp add: orderStatisticZeroBasedRanking_def splay_def splay_loop_stuck)
qed

section \<open>One operation on a valid tree keeps the size invariant\<close>

text \<open>
  Started on a tree that satisfies all the structural invariants, the parent
  links included, each operation returns trees in which every node satisfies
  \<^verbatim>\<open>size == 1 + size(left) + size(right)\<close> and the cached size of the handle is the
  size of the root. This is a statement about one operation: the tree that \<^verbatim>\<open>insert\<close>
  returns for a rank in the middle has a stale parent link, so it is not a tree to
  which the statement applies again.
\<close>

lemma size_invariant_one_step:
  assumes "valid h T t"
  shows "(\<forall>x \<in> set (inorder t).
            (\<exists>h' T' t'. rotateRight h T x = Some (h', T') \<and> sizes_ok h' T' t') \<and>
            (\<exists>h' T' t'. rotateLeft h T x = Some (h', T') \<and> sizes_ok h' T' t') \<and>
            (\<exists>h' T' t'. splay h T (Some x) = Some (h', T') \<and> sizes_ok h' T' t')) \<and>
         (\<forall>k. \<exists>h' T' p t'.
            orderStatisticZeroBasedRanking h T k = Some (h', T', p) \<and> sizes_ok h' T' t') \<and>
         (\<forall>rank c a. a \<notin> set (inorder t) \<and> count t + 1 < 2 ^ 32 \<longrightarrow>
            (\<exists>h' T' t'. insert_at h T rank c a = Some (h', T') \<and> sizes_ok h' T' t')) \<and>
         (\<forall>c a. a \<notin> set (inorder t) \<and> count t + 1 < 2 ^ 32 \<longrightarrow>
            (\<exists>h' T' t'. insertSpecific h T c a = Some (h', T') \<and> sizes_ok h' T' t')) \<and>
         (\<forall>rank. root T \<noteq> None \<longrightarrow>
            (\<exists>h' T1 T2 t1 t2. split h T rank = Some (h', T1, T2) \<and>
               sizes_ok h' T1 t1 \<and> sizes_ok h' T2 t2)) \<and>
         (\<forall>T2 t2. valid h T2 t2 \<and> set (inorder t) \<inter> set (inorder t2) = {} \<and>
              count t + count t2 < 2 ^ 32 \<longrightarrow>
            (\<exists>h' T' t'. merge h (Some T) (Some T2) = Some (h', Some T') \<and> sizes_ok h' T' t')) \<and>
         (\<forall>i j k. i \<le> j \<and> j < tsize T \<and>
              unat k \<le> unat (tsize T) - (unat j - unat i + 1) \<longrightarrow>
            (\<exists>h' T' t'. process h T i j k = Some (h', Some T') \<and> sizes_ok h' T' t'))"
proof (intro conjI ballI allI impI)
  fix x assume x: "x \<in> set (inorder t)"
  show "\<exists>h' T' t'. rotateRight h T x = Some (h', T') \<and> sizes_ok h' T' t'"
    using rotateRight_valid [OF assms x] by (blast intro: valid_sizes_ok)
  show "\<exists>h' T' t'. rotateLeft h T x = Some (h', T') \<and> sizes_ok h' T' t'"
    using rotateLeft_valid [OF assms x] by (blast intro: valid_sizes_ok)
  show "\<exists>h' T' t'. splay h T (Some x) = Some (h', T') \<and> sizes_ok h' T' t'"
    using splay_valid [OF assms x] by (blast intro: valid_sizes_ok)
next
  fix k :: u32
  show "\<exists>h' T' p t'. orderStatisticZeroBasedRanking h T k = Some (h', T', p) \<and>
          sizes_ok h' T' t'"
  proof (cases "t = Tip")
    case True
    then have "root T = None" using assms by (simp add: valid_def)
    then have "orderStatisticZeroBasedRanking h T k = Some (h, T, None)"
      by (rule locate_empty)
    then show ?thesis using valid_sizes_ok [OF assms] by blast
  next
    case False
    from locate_valid [OF assms False, of k] show ?thesis
      by (blast intro: valid_sizes_ok)
  qed
next
  fix rank :: u32 and c a
  assume "a \<notin> set (inorder t) \<and> count t + 1 < 2 ^ 32"
  then show "\<exists>h' T' t'. insert_at h T rank c a = Some (h', T') \<and> sizes_ok h' T' t'"
    using insert_at_sizes_ok [OF assms, of a rank c] by blast
next
  fix c a
  assume "a \<notin> set (inorder t) \<and> count t + 1 < 2 ^ 32"
  then show "\<exists>h' T' t'. insertSpecific h T c a = Some (h', T') \<and> sizes_ok h' T' t'"
    using insertSpecific_valid [OF assms, of a c] by (blast intro: valid_sizes_ok)
next
  fix rank :: u32
  assume "root T \<noteq> None"
  then have "t \<noteq> Tip" using assms by (auto simp: valid_def)
  from split_valid [OF assms this, of rank]
  show "\<exists>h' T1 T2 t1 t2. split h T rank = Some (h', T1, T2) \<and>
          sizes_ok h' T1 t1 \<and> sizes_ok h' T2 t2"
    by (blast intro: valid_sizes_ok)
next
  fix T2 t2
  assume "valid h T2 t2 \<and> set (inorder t) \<inter> set (inorder t2) = {} \<and>
          count t + count t2 < 2 ^ 32"
  then show "\<exists>h' T' t'. merge h (Some T) (Some T2) = Some (h', Some T') \<and> sizes_ok h' T' t'"
    using merge_text [OF assms, of T2 t2] by (blast intro: valid_sizes_ok)
next
  fix i j k :: u32
  assume "i \<le> j \<and> j < tsize T \<and> unat k \<le> unat (tsize T) - (unat j - unat i + 1)"
  then show "\<exists>h' T' t'. process h T i j k = Some (h', Some T') \<and> sizes_ok h' T' t'"
    using process_text [OF assms, of i j k] by (blast intro: valid_sizes_ok)
qed

section \<open>The claims of the specification\<close>

text \<open>
  C6: on a tree that satisfies the structural invariants, \<^verbatim>\<open>locate\<close> with a rank
  \<open>k\<close> below the size returns a node whose character is the \<open>k\<close>-th character
  (counting from 0) of the in-order traversal, and on return this node is the root
  of the tree and has no parent.
\<close>

theorem locate_returns_kth:
  assumes "valid h T t" and "k < tsize T"
  shows "\<exists>h' T' a n s t'.
           orderStatisticZeroBasedRanking h T k = Some (h', T', Some a) \<and>
           inOrder h T = Some s \<and> h' a = Some n \<and> nvalue n = s ! unat k \<and>
           root T' = Some a \<and> parent n = None \<and> valid h' T' t' \<and> inOrder h' T' = Some s"
proof -
  from assms have k: "unat k < count t" by (simp add: valid_def word_less_nat_alt)
  then have ne: "t \<noteq> Tip" by auto
  have m: "min (unat k) (count t - 1) = unat k" using k by simp
  let ?a = "inorder t ! unat k"
  from locate_valid [OF assms(1) ne, of k] m obtain h' T' l r where
    loc: "orderStatisticZeroBasedRanking h T k = Some (h', T', Some ?a)"
    and v': "valid h' T' (Br l ?a r)" and io: "inorder (Br l ?a r) = inorder t"
    and rl: "relinks h h' (set (inorder t))"
    by auto
  from v' obtain n where n: "h' ?a = Some n" "parent n = None" "root T' = Some ?a"
    by (auto simp: valid_def split: option.splits)
  have "map_option nvalue (h' ?a) = map_option nvalue (h ?a)"
    using rl by (simp add: relinks_def)
  then have "map_option nvalue (h ?a) = Some (nvalue n)"
    using n(1) by simp
  then have "text_of h t ! unat k = nvalue n"
    using k by (auto simp: text_of_def)
  moreover have "inOrder h' T' = Some (text_of h t)"
    using inOrder_valid [OF v'] text_of_relinks [OF rl] text_of_inorder_cong [OF io] by simp
  ultimately show ?thesis using loc n v' inOrder_valid [OF assms(1)]
    by (intro exI [of _ h'] exI [of _ T'] exI [of _ ?a] exI [of _ n] exI [of _ "text_of h t"]
         exI [of _ "Br l ?a r"]) simp
qed

theorem locate_returns_kth_witness:
  "valid abc_heap abc_tree abc_shape \<and> 2 < tsize abc_tree \<and>
   (\<exists>h' T' a n s t'.
      orderStatisticZeroBasedRanking abc_heap abc_tree 2 = Some (h', T', Some a) \<and>
      inOrder abc_heap abc_tree = Some s \<and> h' a = Some n \<and> nvalue n = s ! unat (2 :: u32) \<and>
      root T' = Some a \<and> parent n = None \<and> valid h' T' t' \<and> inOrder h' T' = Some s)"
proof -
  have v: "valid abc_heap abc_tree abc_shape"
    by (simp add: valid_def abc_heap_def abc_tree_def abc_shape_def)
  have k: "2 < tsize abc_tree" by (simp add: abc_tree_def)
  show ?thesis using v k locate_returns_kth [OF v k] by simp
qed

text \<open>
  C9: for a tree that satisfies the structural invariants and a node \<open>x\<close> of it, the
  splay loop terminates with \<open>x\<close> at the root and without a parent; the loop
  condition (the node has a parent) is false exactly when the node is the root;
  and one iteration of the loop, run on a node that has a parent, strictly reduces
  the depth of the node.
\<close>

theorem splay_terminates:
  assumes "valid h T t" and "x \<in> set (inorder t)"
  shows "(\<exists>h' T' t' n. splay h T (Some x) = Some (h', T') \<and> valid h' T' t' \<and>
            root T' = Some x \<and> h' x = Some n \<and> parent n = None) \<and>
         (\<exists>n. h x = Some n \<and> (parent n = None \<longleftrightarrow> root T = Some x) \<and>
            (\<forall>p. parent n = Some p \<longrightarrow>
               (\<exists>h1 T1 t1. splay_step h T x p = Some (h1, T1) \<and> valid h1 T1 t1 \<and>
                  depth t1 x < depth t x)))"
proof -
  from splay_valid [OF assms] obtain h' T' l r where
    s: "splay h T (Some x) = Some (h', T')" "valid h' T' (Br l x r)"
    by blast
  from s(2) obtain n' where "h' x = Some n'" "parent n' = None" "root T' = Some x"
    by (auto simp: valid_def split: option.splits)
  then have 1: "\<exists>h' T' t' n. splay h T (Some x) = Some (h', T') \<and> valid h' T' t' \<and>
            root T' = Some x \<and> h' x = Some n \<and> parent n = None"
    using s by blast
  from root_iff_no_parent [OF assms] obtain n where
    n: "h x = Some n" "parent n = None \<longleftrightarrow> root T = Some x"
    by auto
  have 2: "\<exists>h1 T1 t1. splay_step h T x p = Some (h1, T1) \<and> valid h1 T1 t1 \<and>
          depth t1 x < depth t x" if "parent n = Some p" for p
    using splay_step_valid [OF assms n(1) that] by blast
  show ?thesis
  proof (intro conjI)
    show "\<exists>h' T' t' n. splay h T (Some x) = Some (h', T') \<and> valid h' T' t' \<and>
            root T' = Some x \<and> h' x = Some n \<and> parent n = None"
      by (rule 1)
    show "\<exists>n. h x = Some n \<and> (parent n = None \<longleftrightarrow> root T = Some x) \<and>
            (\<forall>p. parent n = Some p \<longrightarrow>
               (\<exists>h1 T1 t1. splay_step h T x p = Some (h1, T1) \<and> valid h1 T1 t1 \<and>
                  depth t1 x < depth t x))"
      using n 2 by (intro exI [of _ n]) simp
  qed
qed

theorem splay_terminates_witness:
  "valid abc_heap abc_tree abc_shape \<and> 0 \<in> set (inorder abc_shape) \<and>
   (\<exists>h' T' t' n. splay abc_heap abc_tree (Some 0) = Some (h', T') \<and> valid h' T' t' \<and>
      root T' = Some 0 \<and> h' 0 = Some n \<and> parent n = None) \<and>
   (\<exists>n. abc_heap 0 = Some n \<and> parent n = Some 1 \<and> root abc_tree \<noteq> Some 0 \<and>
      (\<exists>h1 T1 t1. splay_step abc_heap abc_tree 0 1 = Some (h1, T1) \<and> valid h1 T1 t1 \<and>
         depth t1 0 < depth abc_shape 0))"
proof -
  have x: "0 \<in> set (inorder abc_shape)" by (simp add: abc_shape_def)
  have p: "abc_heap 0 = Some \<lparr>nvalue = CHR ''a'', parent = Some 1, left = None, right = None,
      nsize = 1\<rparr>"
    by (simp add: abc_heap_def)
  from splay_terminates [OF abc_valid x] p show ?thesis
    using abc_valid x by (simp add: abc_tree_def)
qed

text \<open>
  C10: on a non-empty tree that satisfies the structural invariants, \<^verbatim>\<open>locate\<close>
  returns for every unsigned \<open>k\<close>, also for \<open>k\<close> at or beyond the size: the result is
  a non-null pointer to a node of the tree (the node at rank \<open>k\<close>, or the last node
  when \<open>k\<close> is too large), and that node is the root on return. On an empty tree the
  result is the null pointer and nothing is changed.
\<close>

theorem locate_total:
  fixes k :: u32
  assumes "valid h T t"
  shows "(root T \<noteq> None \<longrightarrow>
           (\<exists>h' T' t' a n. orderStatisticZeroBasedRanking h T k = Some (h', T', Some a) \<and>
              a \<in> set (inorder t) \<and> a = inorder t ! min (unat k) (count t - 1) \<and>
              valid h' T' t' \<and> root T' = Some a \<and> h' a = Some n \<and> parent n = None)) \<and>
         (root T = None \<longrightarrow> orderStatisticZeroBasedRanking h T k = Some (h, T, None))"
proof (cases "root T")
  case None
  then show ?thesis by (simp add: locate_empty)
next
  case (Some r)
  then have ne: "t \<noteq> Tip" using assms by (auto simp: valid_def)
  let ?a = "inorder t ! min (unat k) (count t - 1)"
  from locate_valid [OF assms ne, of k] obtain h' T' l r where
    l: "orderStatisticZeroBasedRanking h T k = Some (h', T', Some ?a)"
    "valid h' T' (Br l ?a r)"
    by blast
  from l(2) obtain n where "h' ?a = Some n" "parent n = None" "root T' = Some ?a"
    by (auto simp: valid_def split: option.splits)
  moreover have "min (unat k) (count t - 1) < length (inorder t)"
    using ne by (cases t) auto
  then have "?a \<in> set (inorder t)" by (rule nth_mem)
  ultimately show ?thesis using l Some by auto
qed

theorem locate_total_witness:
  "valid abc_heap abc_tree abc_shape \<and> root abc_tree \<noteq> None \<and>
   (\<exists>h' T' t' n. orderStatisticZeroBasedRanking abc_heap abc_tree 7 = Some (h', T', Some 2) \<and>
      valid h' T' t' \<and> root T' = Some 2 \<and> h' 2 = Some n \<and> parent n = None) \<and>
   valid Map.empty createTree Tip \<and> root createTree = None \<and>
   orderStatisticZeroBasedRanking Map.empty createTree 7 = Some (Map.empty, createTree, None)"
proof -
  have e: "valid Map.empty createTree Tip" by simp
  have r: "root abc_tree \<noteq> None" "root createTree = None"
    by (simp_all add: abc_tree_def createTree_def)
  have m: "inorder abc_shape ! min (unat (7 :: u32)) (count abc_shape - 1) = 2"
    by (simp add: abc_shape_def)
  from locate_total [OF abc_valid, of 7] locate_total [OF e, of 7] r m show ?thesis
    using abc_valid e by auto
qed

text \<open>
  C8: on a tree that satisfies the structural invariants, \<^verbatim>\<open>split\<close> at a rank below
  the size returns a left tree whose in-order sequence is the characters at
  positions 0 to \<open>rank\<close> and a right tree whose in-order sequence is the characters
  from position \<open>rank + 1\<close> on; both satisfy the invariants; for the last rank the
  right tree is the empty tree.
\<close>

theorem split_correct:
  fixes rank :: u32
  assumes "valid h T t" and "rank < tsize T"
  shows "\<exists>h' T1 T2 t1 t2 s. split h T rank = Some (h', T1, T2) \<and> inOrder h T = Some s \<and>
           valid h' T1 t1 \<and> valid h' T2 t2 \<and>
           inOrder h' T1 = Some (take (unat rank + 1) s) \<and>
           inOrder h' T2 = Some (drop (unat rank + 1) s) \<and>
           (rank = tsize T - 1 \<longrightarrow> T2 = createTree)"
proof -
  from split_text [OF assms] obtain h' T1 T2 t1 t2 where
    s: "split h T rank = Some (h', T1, T2)" "valid h' T1 t1" "valid h' T2 t2"
    "text_of h' t1 = take (unat rank + 1) (text_of h t)"
    "text_of h' t2 = drop (unat rank + 1) (text_of h t)"
    "inorder t2 = drop (unat rank + 1) (inorder t)"
    by blast
  have ts: "unat (tsize T) = count t" using assms(1) by (simp add: valid_def)
  have "T2 = createTree" if "rank = tsize T - 1"
  proof -
    have "tsize T \<noteq> 0" using assms(2) by auto
    then have "unat rank = count t - 1" using that ts by (simp add: unat_minus_one)
    moreover have "0 < count t" using assms(2) ts by (simp add: word_less_nat_alt)
    ultimately have "inorder t2 = []" using s(6) by simp
    then have "t2 = Tip" by (cases t2) auto
    then show ?thesis using s(3) by (auto intro: valid_Tip_createTree)
  qed
  then show ?thesis
    using s inOrder_valid [OF assms(1)] inOrder_valid [OF s(2)] inOrder_valid [OF s(3)]
    by (intro exI [of _ h'] exI [of _ T1] exI [of _ T2] exI [of _ t1] exI [of _ t2]
         exI [of _ "text_of h t"]) simp
qed

theorem split_correct_witness:
  "valid abc_heap abc_tree abc_shape \<and> 2 < tsize abc_tree \<and> 2 = tsize abc_tree - 1 \<and>
   (\<exists>h' T1 T2 t1 t2. split abc_heap abc_tree 2 = Some (h', T1, T2) \<and>
      inOrder abc_heap abc_tree = Some ''abc'' \<and> valid h' T1 t1 \<and> valid h' T2 t2 \<and>
      inOrder h' T1 = Some ''abc'' \<and> inOrder h' T2 = Some [] \<and> T2 = createTree)"
proof -
  have k: "2 < tsize abc_tree" "2 = tsize abc_tree - 1" by (simp_all add: abc_tree_def)
  from split_correct [OF abc_valid k(1)] show ?thesis
    using abc_valid k abc_inOrder by auto
qed

text \<open>
  C7: for two trees that satisfy the structural invariants (on separate nodes, and
  small enough for the merged size to fit the \<^verbatim>\<open>unsigned\<close> size field), the
  in-order sequence of \<^verbatim>\<open>merge(T1, T2)\<close> is the sequence of \<open>T1\<close> followed by the
  sequence of \<open>T2\<close>. When \<open>T1\<close> is empty the result is \<open>T2\<close> unchanged, and when \<open>T2\<close> is
  empty the result is \<open>T1\<close> unchanged.
\<close>

theorem merge_correct:
  assumes "valid h T1 t1" and "valid h T2 t2"
    and "set (inorder t1) \<inter> set (inorder t2) = {}"
    and "count t1 + count t2 < 2 ^ 32"
  shows "(\<exists>h' T' t' s1 s2. inOrder h T1 = Some s1 \<and> inOrder h T2 = Some s2 \<and>
            merge h (Some T1) (Some T2) = Some (h', Some T') \<and> valid h' T' t' \<and>
            inOrder h' T' = Some (s1 @ s2)) \<and>
         (root T1 = None \<longrightarrow> merge h (Some T1) (Some T2) = Some (h, Some T2)) \<and>
         (root T1 \<noteq> None \<and> root T2 = None \<longrightarrow>
            merge h (Some T1) (Some T2) = Some (h, Some T1))"
proof -
  from merge_text [OF assms] obtain h' T' t' where
    m: "merge h (Some T1) (Some T2) = Some (h', Some T')" "valid h' T' t'"
    "text_of h' t' = text_of h t1 @ text_of h t2"
    by blast
  have "\<exists>h' T' t' s1 s2. inOrder h T1 = Some s1 \<and> inOrder h T2 = Some s2 \<and>
            merge h (Some T1) (Some T2) = Some (h', Some T') \<and> valid h' T' t' \<and>
            inOrder h' T' = Some (s1 @ s2)"
    using m inOrder_valid [OF assms(1)] inOrder_valid [OF assms(2)] inOrder_valid [OF m(2)]
    by (intro exI [of _ h'] exI [of _ T'] exI [of _ t'] exI [of _ "text_of h t1"]
         exI [of _ "text_of h t2"]) simp
  moreover have "root T1 = None \<longrightarrow> merge h (Some T1) (Some T2) = Some (h, Some T2)"
    by (simp add: merge_def)
  moreover have "root T1 \<noteq> None \<and> root T2 = None \<longrightarrow>
            merge h (Some T1) (Some T2) = Some (h, Some T1)"
    by (auto simp: merge_def)
  ultimately show ?thesis by blast
qed

theorem merge_correct_witness:
  "valid ab_c_heap ab_tree ab_shape \<and> valid ab_c_heap c_tree c_shape \<and>
   set (inorder ab_shape) \<inter> set (inorder c_shape) = {} \<and>
   count ab_shape + count c_shape < 2 ^ 32 \<and>
   (\<exists>h' T' t'. inOrder ab_c_heap ab_tree = Some ''ab'' \<and> inOrder ab_c_heap c_tree = Some ''c'' \<and>
      merge ab_c_heap (Some ab_tree) (Some c_tree) = Some (h', Some T') \<and> valid h' T' t' \<and>
      inOrder h' T' = Some ''abc'') \<and>
   valid ab_c_heap createTree Tip \<and> root createTree = None \<and> root ab_tree \<noteq> None \<and>
   merge ab_c_heap (Some createTree) (Some ab_tree) = Some (ab_c_heap, Some ab_tree) \<and>
   merge ab_c_heap (Some ab_tree) (Some createTree) = Some (ab_c_heap, Some ab_tree)"
proof -
  have dj: "set (inorder ab_shape) \<inter> set (inorder c_shape) = {}"
    and b: "count ab_shape + count c_shape < 2 ^ 32"
    and dj0: "set (inorder Tip) \<inter> set (inorder ab_shape) = {}"
      "set (inorder ab_shape) \<inter> set (inorder Tip) = {}"
    and b0: "count Tip + count ab_shape < 2 ^ 32" "count ab_shape + count Tip < 2 ^ 32"
    by (simp_all add: ab_shape_def c_shape_def)
  have e: "valid ab_c_heap createTree Tip" by simp
  have r: "root createTree = None" "root ab_tree \<noteq> None"
    by (simp_all add: createTree_def ab_tree_def)
  have s1: "inOrder ab_c_heap ab_tree = Some ''ab''"
    using inOrder_valid [OF ab_valid] by (simp add: text_of_def ab_c_heap_def ab_shape_def)
  have s2: "inOrder ab_c_heap c_tree = Some ''c''"
    using inOrder_valid [OF c_valid] by (simp add: text_of_def ab_c_heap_def c_shape_def)
  from merge_correct [OF ab_valid c_valid dj b] merge_correct [OF e ab_valid dj0(1) b0(1)]
    merge_correct [OF ab_valid e dj0(2) b0(2)]
  show ?thesis using ab_valid c_valid dj b e r s1 s2 by auto
qed

text \<open>
  C2: on a tree that satisfies the structural invariants, splitting at a rank below
  the size and merging the two results, left result first, gives a tree with the
  in-order sequence of the original tree.
\<close>

theorem split_merge_roundtrip:
  fixes rank :: u32
  assumes "valid h T t" and "rank < tsize T"
  shows "\<exists>h1 T1 T2 h2 T' t' s. inOrder h T = Some s \<and> split h T rank = Some (h1, T1, T2) \<and>
           merge h1 (Some T1) (Some T2) = Some (h2, Some T') \<and> valid h2 T' t' \<and>
           inOrder h2 T' = Some s"
proof -
  from split_text [OF assms] obtain h1 T1 T2 t1 t2 where
    s: "split h T rank = Some (h1, T1, T2)" "valid h1 T1 t1" "valid h1 T2 t2"
    "text_of h1 t1 = take (unat rank + 1) (text_of h t)"
    "text_of h1 t2 = drop (unat rank + 1) (text_of h t)"
    "set (inorder t1) \<inter> set (inorder t2) = {}" "count t1 + count t2 = count t"
    by blast
  have "count t < 2 ^ 32"
    using assms(1) unat_lt32 [of "tsize T"] by (simp add: valid_def)
  then have b: "count t1 + count t2 < 2 ^ 32" using s(7) by simp
  from merge_text [OF s(2,3,6) b] obtain h2 T' t' where
    m: "merge h1 (Some T1) (Some T2) = Some (h2, Some T')" "valid h2 T' t'"
    "text_of h2 t' = text_of h1 t1 @ text_of h1 t2"
    by blast
  have "text_of h2 t' = text_of h t" using m(3) s(4,5) by simp
  then show ?thesis
    using s(1) m inOrder_valid [OF assms(1)] inOrder_valid [OF m(2)]
    by (intro exI [of _ h1] exI [of _ T1] exI [of _ T2] exI [of _ h2] exI [of _ T']
         exI [of _ t'] exI [of _ "text_of h t"]) simp
qed

theorem split_merge_roundtrip_witness:
  "valid abc_heap abc_tree abc_shape \<and> 0 < tsize abc_tree \<and>
   (\<exists>h1 T1 T2 h2 T' t'. inOrder abc_heap abc_tree = Some ''abc'' \<and>
      split abc_heap abc_tree 0 = Some (h1, T1, T2) \<and>
      merge h1 (Some T1) (Some T2) = Some (h2, Some T') \<and> valid h2 T' t' \<and>
      inOrder h2 T' = Some ''abc'')"
proof -
  have k: "0 < tsize abc_tree" by (simp add: abc_tree_def)
  from split_merge_roundtrip [OF abc_valid k] show ?thesis
    using abc_valid k abc_inOrder by auto
qed

text \<open>
  C1: on a tree that satisfies the structural invariants, with
  \<open>0 \<le> i \<le> j \<le> size - 1\<close> and \<open>0 \<le> k \<le> size - (j - i + 1)\<close>, the in-order sequence after
  \<^verbatim>\<open>process(tree, i, j, k)\<close> is the original sequence with the characters at
  positions \<open>i\<close> to \<open>j\<close> removed and put back after the first \<open>k\<close> characters of the
  rest. The rope built from \<^verbatim>\<open>hello\<close> becomes \<^verbatim>\<open>elhlo\<close> under \<^verbatim>\<open>process\<close> with
  \<open>i = 1\<close>, \<open>j = 2\<close>, \<open>k = 0\<close>.
\<close>

theorem process_correct:
  fixes i j k :: u32
  shows "(valid h T t \<and> i \<le> j \<and> j < tsize T \<and>
          unat k \<le> unat (tsize T) - (unat j - unat i + 1) \<longrightarrow>
          (\<exists>h' T' t' s. inOrder h T = Some s \<and> process h T i j k = Some (h', Some T') \<and>
             valid h' T' t' \<and>
             inOrder h' T' = Some (cut_paste s (unat i) (unat j) (unat k)))) \<and>
         (\<exists>h0 T0 h' T'.
            build Map.empty createTree
              [(CHR ''h'', 0), (CHR ''e'', 1), (CHR ''l'', 2), (CHR ''l'', 3), (CHR ''o'', 4)] =
              Some (h0, T0) \<and>
            inOrder h0 T0 = Some ''hello'' \<and>
            process h0 T0 1 2 0 = Some (h', Some T') \<and> inOrder h' T' = Some ''elhlo'')"
proof (intro conjI impI)
  assume a: "valid h T t \<and> i \<le> j \<and> j < tsize T \<and>
          unat k \<le> unat (tsize T) - (unat j - unat i + 1)"
  then have v: "valid h T t" by simp
  from process_text [of h T t i j k] a obtain h' T' t' where
    p: "process h T i j k = Some (h', Some T')" "valid h' T' t'"
    "text_of h' t' = cut_paste (text_of h t) (unat i) (unat j) (unat k)"
    by blast
  show "\<exists>h' T' t' s. inOrder h T = Some s \<and> process h T i j k = Some (h', Some T') \<and>
             valid h' T' t' \<and>
             inOrder h' T' = Some (cut_paste s (unat i) (unat j) (unat k))"
    using p inOrder_valid [OF v] inOrder_valid [OF p(2)]
    by (intro exI [of _ h'] exI [of _ T'] exI [of _ t'] exI [of _ "text_of h t"]) simp
next
  let ?cs = "[(CHR ''h'', 0), (CHR ''e'', 1), (CHR ''l'', 2), (CHR ''l'', 3), (CHR ''o'', 4)]
    :: (char \<times> addr) list"
  have e: "valid Map.empty createTree Tip" by simp
  have "\<exists>h' T' t'. build Map.empty createTree ?cs = Some (h', T') \<and> valid h' T' t' \<and>
      text_of h' t' = text_of Map.empty Tip @ map fst ?cs"
    by (rule build_valid [OF e]) simp_all
  then obtain h0 T0 t0 where
    b: "build Map.empty createTree ?cs = Some (h0, T0)" "valid h0 T0 t0"
    "text_of h0 t0 = ''hello''"
    by auto
  have n: "count t0 = 5" using arg_cong [OF b(3), of length] by (simp add: text_of_def)
  then have ts: "unat (tsize T0) = 5" using b(2) by (simp add: valid_def)
  have c: "(1 :: u32) \<le> 2" "2 < tsize T0"
    "unat (0 :: u32) \<le> unat (tsize T0) - (unat (2 :: u32) - unat (1 :: u32) + 1)"
    using ts by (simp_all add: word_less_nat_alt)
  from process_text [OF b(2) c] obtain h' T' t' where
    p: "process h0 T0 1 2 0 = Some (h', Some T')" "valid h' T' t'"
    "text_of h' t' = cut_paste (text_of h0 t0) (unat (1 :: u32)) (unat (2 :: u32)) (unat (0 :: u32))"
    by blast
  have "text_of h' t' = ''elhlo''" using p(3) b(3) by (simp add: cut_paste_def)
  then show "\<exists>h0 T0 h' T'. build Map.empty createTree ?cs = Some (h0, T0) \<and>
            inOrder h0 T0 = Some ''hello'' \<and>
            process h0 T0 1 2 0 = Some (h', Some T') \<and> inOrder h' T' = Some ''elhlo''"
    using b p inOrder_valid [OF b(2)] inOrder_valid [OF p(2)]
    by (intro exI [of _ h0] exI [of _ T0] exI [of _ h'] exI [of _ T']) simp
qed

theorem process_correct_witness:
  "valid abc_heap abc_tree abc_shape \<and> (0 :: u32) \<le> 1 \<and> 1 < tsize abc_tree \<and>
   unat (1 :: u32) \<le> unat (tsize abc_tree) - (unat (1 :: u32) - unat (0 :: u32) + 1) \<and>
   (\<exists>h' T' t'. inOrder abc_heap abc_tree = Some ''abc'' \<and>
      process abc_heap abc_tree 0 1 1 = Some (h', Some T') \<and> valid h' T' t' \<and>
      inOrder h' T' = Some ''cab'')"
proof -
  have c: "(0 :: u32) \<le> 1" "1 < tsize abc_tree"
    "unat (1 :: u32) \<le> unat (tsize abc_tree) - (unat (1 :: u32) - unat (0 :: u32) + 1)"
    by (simp_all add: abc_tree_def)
  have "cut_paste ''abc'' (unat (0 :: u32)) (unat (1 :: u32)) (unat (1 :: u32)) = ''cab''"
    by (simp add: cut_paste_def)
  with process_correct [of abc_heap abc_tree abc_shape 0 1 1] show ?thesis
    using abc_valid c abc_inOrder by auto
qed

text \<open>
  C3: the claim that after every public operation every reachable node satisfies
  \<^verbatim>\<open>size == 1 + size(left) + size(right)\<close> and the cached size of the tree equals the
  size of the root, evaluated on the code. The rope \<^verbatim>\<open>abc\<close> is built by the bulk-load
  insert and satisfies the invariants. \<^verbatim>\<open>insert(tree, 2, 'x')\<close> returns a tree whose
  sizes are still right, but in which the parent pointer of the node of \<^verbatim>\<open>b\<close>
  (address 1) still names the node of \<^verbatim>\<open>c\<close> (address 2). The following
  \<^verbatim>\<open>locate(tree, 0)\<close> splays through that stale pointer and returns normally: the
  cached size of the tree is 4, the size of the root is 5, the node of \<^verbatim>\<open>b\<close> is a
  child of two nodes, and the traversal yields five characters.
\<close>

theorem size_invariant_lost_after_insert:
  "build Map.empty createTree [(CHR ''a'', 0), (CHR ''b'', 1), (CHR ''c'', 2)] =
     Some (abc_chain_heap, abc_chain_tree) \<and>
   valid abc_chain_heap abc_chain_tree abc_chain_shape \<and>
   insert_at abc_chain_heap abc_chain_tree 2 CHR ''x'' 3 = Some (abxc_heap, abxc_tree) \<and>
   sizes_ok abxc_heap abxc_tree abxc_shape \<and>
   \<not> parents_ok abxc_heap abxc_tree abxc_shape \<and>
   orderStatisticZeroBasedRanking abxc_heap abxc_tree 0 =
     Some (tangled_heap, tangled_tree, Some 0) \<and>
   links tangled_heap (root tangled_tree) tangled_shape \<and>
   size_of tangled_heap (root tangled_tree) = Some 5 \<and> tsize tangled_tree = 4 \<and>
   \<not> sizes_ok tangled_heap tangled_tree tangled_shape \<and>
   inOrder tangled_heap tangled_tree = Some ''bxcab''"
proof -
  have 1: "build Map.empty createTree [(CHR ''a'', 0), (CHR ''b'', 1), (CHR ''c'', 2)] =
      Some (abc_chain_heap, abc_chain_tree)"
    by (simp add: insertSpecific_def createNode_def createTree_def upd_def
        abc_chain_heap_def abc_chain_tree_def fun_eq_iff)
  have 2: "valid abc_chain_heap abc_chain_tree abc_chain_shape"
    by (simp add: valid_def abc_chain_heap_def abc_chain_tree_def abc_chain_shape_def)
  have 3: "insert_at abc_chain_heap abc_chain_tree 2 CHR ''x'' 3 = Some (abxc_heap, abxc_tree)"
    by (simp add: insert_at_def Let_def createNode_def orderStatisticZeroBasedRanking_def
        os_loop.simps splay_def splay_loop.simps upd_def update_size_def
        abc_chain_heap_def abc_chain_tree_def abxc_heap_def abxc_tree_def fun_eq_iff)
  have 4: "sizes_ok abxc_heap abxc_tree abxc_shape"
    by (simp add: sizes_ok_def size_eq_def abxc_heap_def abxc_tree_def abxc_shape_def)
  have 5: "\<not> parents_ok abxc_heap abxc_tree abxc_shape"
    by (simp add: parents_ok_def parent_ok_def abxc_heap_def abxc_tree_def abxc_shape_def)
  have 6: "orderStatisticZeroBasedRanking abxc_heap abxc_tree 0 =
      Some (tangled_heap, tangled_tree, Some 0)"
    by (simp add: orderStatisticZeroBasedRanking_def os_loop.simps splay_def splay_loop.simps
        splay_step_def rotateLeft_def rotateRight_def replace_child_def upd_def update_size_def
        abxc_heap_def abxc_tree_def tangled_heap_def tangled_tree_def fun_eq_iff)
  have 7: "links tangled_heap (root tangled_tree) tangled_shape"
    by (simp add: tangled_heap_def tangled_tree_def tangled_shape_def)
  have 8: "size_of tangled_heap (root tangled_tree) = Some 5" "tsize tangled_tree = 4"
    by (simp_all add: tangled_heap_def tangled_tree_def)
  have 9: "\<not> sizes_ok tangled_heap tangled_tree tangled_shape"
    using 8 by (simp add: sizes_ok_def)
  have 10: "inOrder tangled_heap tangled_tree = Some ''bxcab''"
    by (simp add: inOrder_def inOrder_loop.simps tangled_heap_def tangled_tree_def)
  show ?thesis using 1 2 3 4 5 6 7 8 9 10 by simp
qed

text \<open>
  C4: the claim that every operation, the general insert at a rank strictly
  between 0 and the size included, leaves the parent pointer of every node other
  than the root consistent with a child link of the parent, evaluated on the code.
  The rope \<^verbatim>\<open>ab\<close> is built by the bulk-load insert and satisfies the invariants; then
  \<^verbatim>\<open>insert(tree, 1, 'x')\<close> puts a new node (address 2) in the middle. Afterwards the
  node of \<^verbatim>\<open>a\<close> (address 0) is the left child of the new root, but its parent pointer
  still names the node of \<^verbatim>\<open>b\<close> (address 1), which has no children: the parent
  invariant does not hold. A splay step on that node then leaves the store as it
  is, and \<^verbatim>\<open>locate\<close> at rank 0 does not return.
\<close>

theorem insert_breaks_parent_link:
  "build Map.empty createTree [(CHR ''a'', 0), (CHR ''b'', 1)] = Some (ab_heap, ab_tree) \<and>
   valid ab_heap ab_tree ab_shape \<and>
   insert_at ab_heap ab_tree 1 CHR ''x'' 2 = Some (axb_heap, axb_tree) \<and>
   links axb_heap (root axb_tree) axb_shape \<and>
   \<not> parent_ok axb_heap 0 \<and>
   \<not> parents_ok axb_heap axb_tree axb_shape \<and>
   splay_step axb_heap axb_tree 0 1 = Some (axb_heap, axb_tree) \<and>
   orderStatisticZeroBasedRanking axb_heap axb_tree 0 = None"
proof -
  have 1: "build Map.empty createTree [(CHR ''a'', 0), (CHR ''b'', 1)] = Some (ab_heap, ab_tree)"
    by (simp add: insertSpecific_def createNode_def createTree_def upd_def
        ab_heap_def ab_tree_def fun_eq_iff)
  have 2: "valid ab_heap ab_tree ab_shape"
    by (simp add: valid_def ab_heap_def ab_tree_def ab_shape_def)
  have 3: "insert_at ab_heap ab_tree 1 CHR ''x'' 2 = Some (axb_heap, axb_tree)"
    by (simp add: insert_at_def Let_def createNode_def orderStatisticZeroBasedRanking_def
        os_loop.simps splay_def splay_loop.simps upd_def update_size_def
        ab_heap_def ab_tree_def axb_heap_def axb_tree_def fun_eq_iff)
  have 4: "links axb_heap (root axb_tree) axb_shape"
    by (simp add: axb_heap_def axb_tree_def axb_shape_def)
  have 5: "\<not> parent_ok axb_heap 0" by (simp add: parent_ok_def axb_heap_def)
  have 6: "\<not> parents_ok axb_heap axb_tree axb_shape"
    using 5 by (simp add: parents_ok_def axb_shape_def axb_tree_def)
  show ?thesis using 1 2 3 4 5 6 splay_step_stuck locate_stuck by simp
qed

text \<open>
  C5, as stated: an index out of range is detected and an error is signalled,
  without changing the tree. On the code this fails: \<^verbatim>\<open>locate\<close> with \<open>k = 7\<close> on the rope
  \<^verbatim>\<open>abc\<close>, whose size is 3, returns normally with the node of \<^verbatim>\<open>c\<close> (address 2), and has
  restructured the tree: that node, which was a child of the node at address 1, is
  now the root.
\<close>

theorem locate_out_of_range_returns:
  "orderStatisticZeroBasedRanking abc_heap abc_tree 7 = Some (cba_heap, cba_tree, Some 2) \<and>
   \<not> 7 < tsize abc_tree \<and> cba_heap \<noteq> abc_heap"
proof -
  have "orderStatisticZeroBasedRanking abc_heap abc_tree 7 = Some (cba_heap, cba_tree, Some 2)"
    by (simp add: orderStatisticZeroBasedRanking_def os_loop.simps splay_def splay_loop.simps
        splay_step_def rotateLeft_def rotateRight_def replace_child_def upd_def update_size_def
        abc_heap_def abc_tree_def cba_heap_def cba_tree_def fun_eq_iff)
  moreover have "cba_heap 2 \<noteq> abc_heap 2" by (simp add: cba_heap_def abc_heap_def)
  then have "cba_heap \<noteq> abc_heap" by metis
  ultimately show ?thesis by (simp add: abc_tree_def)
qed

text \<open>
  C5, amended: \<^verbatim>\<open>locate\<close> and \<^verbatim>\<open>split\<close> make no range check. On a non-empty tree that
  satisfies the structural invariants, a call with an index at or beyond the size
  returns normally and does exactly what the call with index \<open>size - 1\<close> does:
  \<^verbatim>\<open>locate\<close> returns the last node, splayed to the root, and \<^verbatim>\<open>split\<close> returns the whole
  sequence as the left tree and the empty tree as the right tree. The tree is
  restructured by the splay, still satisfies the invariants and keeps its in-order
  sequence.
\<close>

theorem out_of_range_is_clamped:
  fixes k :: u32
  assumes "valid h T t" and "root T \<noteq> None" and "tsize T \<le> k"
  shows "orderStatisticZeroBasedRanking h T k =
           orderStatisticZeroBasedRanking h T (tsize T - 1) \<and>
         split h T k = split h T (tsize T - 1) \<and>
         (\<exists>h' T' t' s. inOrder h T = Some s \<and>
            orderStatisticZeroBasedRanking h T k = Some (h', T', Some (last (inorder t))) \<and>
            valid h' T' t' \<and> root T' = Some (last (inorder t)) \<and> inOrder h' T' = Some s) \<and>
         (\<exists>h' T1 t1 s. inOrder h T = Some s \<and> split h T k = Some (h', T1, createTree) \<and>
            valid h' T1 t1 \<and> inOrder h' T1 = Some s)"
proof -
  have ne: "t \<noteq> Tip" using assms(1,2) by (auto simp: valid_def)
  have ts: "unat (tsize T) = count t" and ht: "heap_tree h None t" and rt: "root T = rootp t"
    using assms(1) by (simp_all add: valid_def)
  have pos: "0 < count t" using ne by (cases t) auto
  then have "tsize T \<noteq> 0" using ts by auto
  then have k1: "unat (tsize T - 1) = count t - 1" using ts by (simp add: unat_minus_one)
  have k: "count t \<le> unat k" using assms(3) ts by (simp add: word_le_nat_alt)
  have m: "min (unat k) (count t - 1) = count t - 1" using k by simp
  have "inorder t \<noteq> []" using ne by (cases t) auto
  then have lst: "inorder t ! (count t - 1) = last (inorder t)"
    by (simp add: last_conv_nth)
  have "os_loop h (root T) k = os_loop h (root T) (tsize T - 1)"
    unfolding rt os_loop_correct [OF ht ne] using m k1 by simp
  then have eq: "orderStatisticZeroBasedRanking h T k =
      orderStatisticZeroBasedRanking h T (tsize T - 1)"
    by (simp add: orderStatisticZeroBasedRanking_def)
  then have eqs: "split h T k = split h T (tsize T - 1)" by (simp add: split_def)
  define a where "a = last (inorder t)"
  have am: "inorder t ! min (unat k) (count t - 1) = a" using m lst by (simp add: a_def)
  from locate_valid [OF assms(1) ne, of k, unfolded am] obtain h' T' l r where
    l: "orderStatisticZeroBasedRanking h T k = Some (h', T', Some a)"
    "valid h' T' (Br l a r)"
    "inorder (Br l a r) = inorder t" "relinks h h' (set (inorder t))"
    by blast
  have "text_of h' (Br l a r) = text_of h (Br l a r)" by (rule text_of_relinks [OF l(4)])
  also have "\<dots> = text_of h t" by (rule text_of_inorder_cong [OF l(3)])
  finally have tx: "inOrder h' T' = Some (text_of h t)" using inOrder_valid [OF l(2)] by simp
  have "root T' = Some a" using valid_root [OF l(2)] by simp
  then have 3: "\<exists>h' T' t' s. inOrder h T = Some s \<and>
            orderStatisticZeroBasedRanking h T k = Some (h', T', Some (last (inorder t))) \<and>
            valid h' T' t' \<and> root T' = Some (last (inorder t)) \<and> inOrder h' T' = Some s"
    unfolding a_def [symmetric] using l(1,2) inOrder_valid [OF assms(1)] tx
    by (intro exI [of _ h'] exI [of _ T'] exI [of _ "Br l a r"]
         exI [of _ "text_of h t"]) simp
  have sm: "Suc (min (unat k) (count t - 1)) = count t" using m pos by simp
  from split_valid [OF assms(1) ne, of k, unfolded sm] obtain h2 T1 T2 t1 t2 where
    s: "split h T k = Some (h2, T1, T2)" "valid h2 T1 t1" "valid h2 T2 t2"
    "inorder t1 = take (count t) (inorder t)" "inorder t2 = drop (count t) (inorder t)"
    "relinks h h2 (set (inorder t))"
    by blast
  have "t2 = Tip" using s(5) by (cases t2) auto
  then have T2: "T2 = createTree" using s(3) by (auto intro: valid_Tip_createTree)
  have it1: "inorder t1 = inorder t" using s(4) by simp
  have "text_of h2 t1 = text_of h t1" by (rule text_of_relinks [OF s(6)])
  also have "\<dots> = text_of h t" by (rule text_of_inorder_cong [OF it1])
  finally have tx1: "inOrder h2 T1 = Some (text_of h t)" using inOrder_valid [OF s(2)] by simp
  then have 4: "\<exists>h' T1 t1 s. inOrder h T = Some s \<and> split h T k = Some (h', T1, createTree) \<and>
            valid h' T1 t1 \<and> inOrder h' T1 = Some s"
    using s(1,2) T2 inOrder_valid [OF assms(1)]
    by (intro exI [of _ h2] exI [of _ T1] exI [of _ t1] exI [of _ "text_of h t"]) simp
  show ?thesis by (intro conjI) (fact eq eqs 3 4)+
qed

theorem out_of_range_is_clamped_witness:
  "valid abc_heap abc_tree abc_shape \<and> root abc_tree \<noteq> None \<and> tsize abc_tree \<le> 7 \<and>
   orderStatisticZeroBasedRanking abc_heap abc_tree 7 =
     orderStatisticZeroBasedRanking abc_heap abc_tree 2 \<and>
   split abc_heap abc_tree 7 = split abc_heap abc_tree 2 \<and>
   (\<exists>h' T' t'. inOrder abc_heap abc_tree = Some ''abc'' \<and>
      orderStatisticZeroBasedRanking abc_heap abc_tree 7 = Some (h', T', Some 2) \<and>
      valid h' T' t' \<and> root T' = Some 2 \<and> inOrder h' T' = Some ''abc'') \<and>
   (\<exists>h' T1 t1. split abc_heap abc_tree 7 = Some (h', T1, createTree) \<and>
      valid h' T1 t1 \<and> inOrder h' T1 = Some ''abc'')"
proof -
  have c: "root abc_tree \<noteq> None" "tsize abc_tree \<le> 7" by (simp_all add: abc_tree_def)
  have l: "last (inorder abc_shape) = 2" "tsize abc_tree - 1 = 2"
    by (simp_all add: abc_shape_def abc_tree_def)
  note th = out_of_range_is_clamped [OF abc_valid c, unfolded l]
  note e1 = th [THEN conjunct1]
  note e2 = th [THEN conjunct2, THEN conjunct1]
  note e3 = th [THEN conjunct2, THEN conjunct2, THEN conjunct1]
  note e4 = th [THEN conjunct2, THEN conjunct2, THEN conjunct2]
  have 3: "\<exists>h' T' t'. inOrder abc_heap abc_tree = Some ''abc'' \<and>
      orderStatisticZeroBasedRanking abc_heap abc_tree 7 = Some (h', T', Some 2) \<and>
      valid h' T' t' \<and> root T' = Some 2 \<and> inOrder h' T' = Some ''abc''"
    using e3 abc_inOrder by auto
  have 4: "\<exists>h' T1 t1. split abc_heap abc_tree 7 = Some (h', T1, createTree) \<and>
      valid h' T1 t1 \<and> inOrder h' T1 = Some ''abc''"
    using e4 abc_inOrder by auto
  show ?thesis by (intro conjI) (fact abc_valid c e1 e2 3 4)+
qed

end
